theory Spec2Isabelle
  imports Complex_Main
begin

section \<open>Python strings and their UTF-8 size\<close>

text \<open>
  A Python \<open>str\<close> is a sequence of Unicode code points; a code point is modelled by its
  number. \<open>len(s)\<close> is \<open>length s\<close>, \<open>s[:k]\<close> is \<open>take k s\<close> and \<open>s[k:]\<close> is \<open>drop k s\<close>
  for a non-negative \<open>k\<close>. ASCII literals of the source are written \<open>cps ''...''\<close>.
\<close>

type_synonym pystr = "nat list"

definition cps :: "string \<Rightarrow> pystr" where
  "cps s = map of_char s"

text \<open>
  \<open>s.encode('utf-8')\<close> raises \<open>UnicodeEncodeError\<close> on a lone surrogate
  (U+D800 .. U+DFFF); every other code point takes one to four bytes.
\<close>

definition is_surrogate :: "nat \<Rightarrow> bool" where
  "is_surrogate c = (55296 \<le> c \<and> c \<le> 57343)"

definition encodable :: "pystr \<Rightarrow> bool" where
  "encodable s = list_all (\<lambda>c. \<not> is_surrogate c) s"

definition char_bytes :: "nat \<Rightarrow> nat" where
  "char_bytes c = (if c < 128 then 1 else if c < 2048 then 2 else if c < 65536 then 3 else 4)"

text \<open>\<open>len(s.encode('utf-8'))\<close> for an encodable \<open>s\<close>.\<close>

definition utf8_len :: "pystr \<Rightarrow> nat" where
  "utf8_len s = sum_list (map char_bytes s)"

text \<open>
  \<open>str.strip\<close>, \<open>str.lstrip\<close> and \<open>str.rstrip\<close> without an argument remove the characters
  for which \<open>str.isspace\<close> holds.
\<close>

definition is_space :: "nat \<Rightarrow> bool" where
  "is_space c = ((9 \<le> c \<and> c \<le> 13) \<or> (28 \<le> c \<and> c \<le> 32) \<or> c = 133 \<or> c = 160
     \<or> c = 5760 \<or> (8192 \<le> c \<and> c \<le> 8202) \<or> c = 8232 \<or> c = 8233 \<or> c = 8239
     \<or> c = 8287 \<or> c = 12288)"

definition lstrip :: "pystr \<Rightarrow> pystr" where
  "lstrip s = dropWhile is_space s"

definition rstrip :: "pystr \<Rightarrow> pystr" where
  "rstrip s = rev (dropWhile is_space (rev s))"

definition strip :: "pystr \<Rightarrow> pystr" where
  "strip s = lstrip (rstrip s)"

text \<open>
  \<open>s.rfind(sub)\<close>: the highest index at which \<open>sub\<close> occurs in \<open>s\<close>, or \<open>-1\<close>;
  \<open>s.find(sub)\<close>: the lowest such index, or \<open>-1\<close>.
\<close>

definition occurs_at :: "pystr \<Rightarrow> pystr \<Rightarrow> nat \<Rightarrow> bool" where
  "occurs_at s sub i = (take (length sub) (drop i s) = sub)"

definition rfind :: "pystr \<Rightarrow> pystr \<Rightarrow> int" where
  "rfind s sub =
     (case filter (occurs_at s sub) (rev [0..<length s + 1 - length sub]) of
        [] \<Rightarrow> -1
      | i # _ \<Rightarrow> int i)"

definition find_str :: "pystr \<Rightarrow> pystr \<Rightarrow> int" where
  "find_str s sub =
     (case filter (occurs_at s sub) [0..<length s + 1 - length sub] of
        [] \<Rightarrow> -1
      | i # _ \<Rightarrow> int i)"

text \<open>\<open>str(n)\<close> for an integer, as an f-string formats it.\<close>

fun digits :: "nat \<Rightarrow> pystr" where
  "digits n = (if n < 10 then [48 + n] else digits (n div 10) @ [48 + n mod 10])"

declare digits.simps [simp del]

definition str_int :: "int \<Rightarrow> pystr" where
  "str_int i = (if i < 0 then 45 # digits (nat (- i)) else digits (nat i))"

section \<open>The message splitter\<close>

definition MAX_MESSAGE_BYTES :: int where
  "MAX_MESSAGE_BYTES = 150"

datatype error = UnicodeEncodeError | ZeroDivisionError

text \<open>\<open>f"[{part_num}/{estimated_parts}] "\<close>\<close>

definition part_prefix :: "int \<Rightarrow> int \<Rightarrow> pystr" where
  "part_prefix part_num total_parts =
     cps ''['' @ str_int part_num @ cps ''/'' @ str_int total_parts @ cps ''] ''"

text \<open>
  \<open>_find_byte_safe_split\<close>: the binary search over character positions. \<open>bsearch\<close> is its
  \<open>while low < high\<close> loop.
\<close>

function bsearch :: "pystr \<Rightarrow> int \<Rightarrow> nat \<Rightarrow> nat \<Rightarrow> nat" where
  "bsearch text max_bytes low high =
     (if low < high then
        (let mid = (low + high + 1) div 2 in
         if int (utf8_len (take mid text)) \<le> max_bytes
         then bsearch text max_bytes mid high
         else bsearch text max_bytes low (mid - 1))
      else low)"
  by pat_completeness auto
termination
  by (relation "measure (\<lambda>(text, max_bytes, low, high). high - low)") auto

declare bsearch.simps [simp del]

definition find_byte_safe_split :: "pystr \<Rightarrow> int \<Rightarrow> nat" where
  "find_byte_safe_split text max_bytes =
     (if int (utf8_len text) \<le> max_bytes then length text
      else bsearch text max_bytes 0 (length text))"

text \<open>
  The \<open>for punct in [...]: ... break ... else:\<close> loops of \<open>split_message\<close>: the first
  punctuation whose last occurrence lies past the middle of the chunk gives the split
  index; \<open>None\<close> is the \<open>else\<close> branch of the \<open>for\<close>.
\<close>

fun first_punct :: "pystr \<Rightarrow> pystr list \<Rightarrow> nat option" where
  "first_punct chunk [] = None"
| "first_punct chunk (punct # puncts) =
     (let punct_pos = rfind chunk punct in
      if punct_pos > int (length chunk) div 2 then Some (nat (punct_pos + int (length punct)))
      else first_punct chunk puncts)"

text \<open>The choice of the split index among the logical points of the chunk (source lines 233-258).\<close>

definition logical_split :: "pystr \<Rightarrow> nat \<Rightarrow> nat" where
  "logical_split remaining split_index =
     (let chunk = take split_index remaining;
          newline_pos = rfind chunk (cps [CHR 0x0A]) in
      if newline_pos > int (length chunk) div 2 then nat (newline_pos + 1)
      else
        (case first_punct chunk [cps ''. '', cps ''! '', cps ''? ''] of
           Some i \<Rightarrow> i
         | None \<Rightarrow>
             (case first_punct chunk [cps '', '', cps ''; ''] of
                Some i \<Rightarrow> i
              | None \<Rightarrow>
                  (let space_pos = rfind chunk (cps '' '') in
                   if space_pos > int (length chunk) div 2 then nat (space_pos + 1)
                   else split_index))))"

text \<open>
  One iteration of \<open>while remaining:\<close> on the loop's variables
  \<open>(remaining, part_num, parts)\<close>: \<open>Inr\<close> is the list of parts when the loop ends (its
  condition fails, or the \<open>break\<close> of the last part), \<open>Inl\<close> the variables at the next
  iteration.
\<close>

type_synonym loop_state = "pystr \<times> int \<times> pystr list"

definition split_step :: "int \<Rightarrow> int \<Rightarrow> loop_state \<Rightarrow> loop_state + pystr list" where
  "split_step max_bytes estimated_parts st =
     (case st of (remaining, part_num, parts) \<Rightarrow>
        if remaining = [] then Inr parts
        else
          (let prefix = part_prefix part_num estimated_parts;
               prefix_bytes = int (utf8_len prefix);
               available_bytes = max_bytes - prefix_bytes in
           if int (utf8_len remaining) \<le> available_bytes then Inr (parts @ [prefix @ remaining])
           else
             (let split_index =
                    logical_split remaining (find_byte_safe_split remaining available_bytes);
                  part_content = rstrip (take split_index remaining) in
              Inl (lstrip (drop split_index remaining), part_num + 1,
                   parts @ [prefix @ part_content]))))"

text \<open>The loop may run forever (a split index of 0 consumes nothing): \<open>None\<close> is not returning.\<close>

partial_function (option) split_loop :: "int \<Rightarrow> int \<Rightarrow> loop_state \<Rightarrow> pystr list option" where
  "split_loop max_bytes estimated_parts st =
     (case split_step max_bytes estimated_parts st of
        Inr parts \<Rightarrow> Some parts
      | Inl st' \<Rightarrow> split_loop max_bytes estimated_parts st')"

text \<open>The final pass (source lines 266-274), \<open>enumerate(parts, 1)\<close> being \<open>zip [1..] parts\<close>.\<close>

definition renumber :: "pystr list \<Rightarrow> pystr list" where
  "renumber parts =
     (let total_parts = int (length parts) in
      map (\<lambda>(i, part).
             (let old_prefix_end = find_str part (cps ''] '') + 2;
                  content_part = drop (nat old_prefix_end) part in
              part_prefix i total_parts @ content_part))
          (zip [1..total_parts] parts))"

text \<open>
  \<open>split_message(content, max_bytes)\<close>. The result is \<open>None\<close> when the loop does not return,
  \<open>Some (Inl e)\<close> when the call raises \<open>e\<close>, \<open>Some (Inr parts)\<close> when it returns \<open>parts\<close>.
  The first \<open>content.encode\<close> raises on a lone surrogate; every later \<open>encode\<close> is of a
  piece of \<open>content\<close> behind an ASCII prefix. The estimate divides by \<open>max_bytes - 7\<close>
  with Python's floor division, which is \<open>div\<close> on \<open>int\<close>.
\<close>

definition estimated_parts :: "pystr \<Rightarrow> int \<Rightarrow> int" where
  "estimated_parts content max_bytes =
     (let prefix_overhead = 7;
          effective_max = max_bytes - prefix_overhead
      in (int (utf8_len content) + effective_max - 1) div effective_max)"

definition split_message :: "pystr \<Rightarrow> int option \<Rightarrow> (error + pystr list) option" where
  "split_message content max_bytes_arg =
     (let max_bytes = (case max_bytes_arg of None \<Rightarrow> MAX_MESSAGE_BYTES | Some m \<Rightarrow> m) in
      if \<not> encodable content then Some (Inl UnicodeEncodeError)
      else if int (utf8_len content) \<le> max_bytes then Some (Inr [content])
      else if max_bytes - 7 = 0 then Some (Inl ZeroDivisionError)
      else
        (let estimate = estimated_parts content max_bytes in
         case split_loop max_bytes estimate (content, 1, []) of
           None \<Rightarrow> None
         | Some parts \<Rightarrow>
             Some (Inr (if int (length parts) \<noteq> estimate then renumber parts else parts))))"

subsection \<open>Vocabulary for the splitter's properties\<close>

text \<open>
  The variables of the loop at the start of its \<open>n\<close>-th pass (counted from 0), when the
  loop gets that far.
\<close>

fun state_at :: "int \<Rightarrow> int \<Rightarrow> loop_state \<Rightarrow> nat \<Rightarrow> loop_state option" where
  "state_at max_bytes estimate st 0 = Some st"
| "state_at max_bytes estimate st (Suc n) =
     (case split_step max_bytes estimate st of
        Inl st' \<Rightarrow> state_at max_bytes estimate st' n
      | Inr parts \<Rightarrow> None)"

text \<open>The bodies \<open>b\<close> numbered \<open>[k/n] b\<close>, \<open>[k+1/n] b'\<close>, ...\<close>

fun number_from :: "int \<Rightarrow> int \<Rightarrow> pystr list \<Rightarrow> pystr list" where
  "number_from n k [] = []"
| "number_from n k (body # bodies) = (part_prefix k n @ body) # number_from n (k + 1) bodies"

text \<open>
  Each body followed by a gap: \<open>b\<^sub>1 g\<^sub>1 b\<^sub>2 g\<^sub>2 ...\<close>; \<open>blank\<close> is a string of whitespace
  only (possibly empty).
\<close>

fun interleave :: "pystr list \<Rightarrow> pystr list \<Rightarrow> pystr" where
  "interleave (body # bodies) (gap # gaps) = body @ gap @ interleave bodies gaps"
| "interleave bodies gaps = []"

definition blank :: "pystr \<Rightarrow> bool" where
  "blank s = list_all is_space s"

text \<open>
  The precondition of termination: at every pass of the loop that finds text left, at least
  four bytes (the longest UTF-8 encoding of a code point) remain after the prefix of that
  pass.
\<close>

definition budget_ok :: "int \<Rightarrow> int \<Rightarrow> loop_state \<Rightarrow> bool" where
  "budget_ok mb est st =
     (\<forall>n remaining pn ps. state_at mb est st n = Some (remaining, pn, ps) \<longrightarrow> remaining \<noteq> [] \<longrightarrow>
        4 \<le> mb - int (utf8_len (part_prefix pn est)))"

text \<open>
  What the loop returns from a state: the parts it already had, then the remaining text cut
  into bodies, numbered on, with whitespace only between the bodies.
\<close>

definition loop_shape :: "int \<Rightarrow> loop_state \<Rightarrow> pystr list \<Rightarrow> bool" where
  "loop_shape est st parts =
     (\<exists>bodies gaps. parts = snd (snd st) @ number_from est (fst (snd st)) bodies
        \<and> length gaps = length bodies \<and> list_all blank gaps
        \<and> fst st = interleave bodies gaps)"

text \<open>
  The bodies of a list of numbered parts: each part without the prefix \<open>[i/n] \<close> of its
  position.
\<close>

definition part_bodies :: "pystr list \<Rightarrow> pystr list" where
  "part_bodies parts =
     map (\<lambda>(i, part). drop (length (part_prefix i (int (length parts)))) part)
         (zip [1..int (length parts)] parts)"

text \<open>Every part of a list is at most \<open>mb\<close> bytes long.\<close>

definition all_fit :: "int \<Rightarrow> pystr list \<Rightarrow> bool" where
  "all_fit mb parts = list_all (\<lambda>p. int (utf8_len p) \<le> mb) parts"

section \<open>Classifying a send result\<close>

text \<open>
  The result of a transport send, as \<open>_handle_send_result\<close> looks at it: a falsy result
  (\<open>None\<close>), an object without a \<open>type\<close> attribute, or an event with a type and
  (possibly) a payload. \<open>OtherType\<close> stands for every member of \<open>EventType\<close> other than
  \<open>ERROR\<close>, \<open>MSG_SENT\<close> and \<open>OK\<close>, by its name.
\<close>

datatype event_type = ERROR | MSG_SENT | OK | OtherType string

datatype pyval = PyStr string | PyOther

datatype payload = NoPayloadAttr | NotADict | Dict "string \<rightharpoonup> pyval"

datatype send_result = NoResult | Untyped | Event event_type payload

datatype log_level = LogError | LogWarning | LogInfo | LogDebug

text \<open>
  The two rate limiters are external; what the dispatcher does to them is to call
  \<open>rate_limiter.record_send()\<close> and \<open>bot_tx_rate_limiter.record_tx()\<close>, counted here.
  The logger's calls are kept by level.
\<close>

record limiters =
  user_sends :: nat
  tx_records :: nat
  log :: "log_level list"

definition record_both :: "limiters \<Rightarrow> limiters" where
  "record_both st = st\<lparr>user_sends := user_sends st + 1, tx_records := tx_records st + 1\<rparr>"

definition logged :: "log_level \<Rightarrow> limiters \<Rightarrow> limiters" where
  "logged lvl st = st\<lparr>log := log st @ [lvl]\<rparr>"

text \<open>\<open>error_payload.get('reason') == 'no_event_received'\<close> behind the \<open>isinstance\<close> test.\<close>

definition reason_no_event :: "payload \<Rightarrow> bool" where
  "reason_no_event p =
     (case p of Dict d \<Rightarrow> d ''reason'' = Some (PyStr ''no_event_received'') | _ \<Rightarrow> False)"

text \<open>
  \<open>_handle_send_result(result, operation_name, target, used_retry_method)\<close>; \<open>target\<close>
  and \<open>used_retry_method\<close> only choose the text of the log line.
\<close>

definition handle_send_result :: "send_result \<Rightarrow> string \<Rightarrow> limiters \<Rightarrow> bool \<times> limiters" where
  "handle_send_result result operation_name st =
     (case result of
        NoResult \<Rightarrow> (False, logged LogError st)
      | Event t p \<Rightarrow>
          if t = ERROR then (False, logged LogError st)
          else if t = MSG_SENT \<or> t = OK then (True, record_both (logged LogInfo st))
          else if operation_name = ''Channel message'' \<and> reason_no_event p
            then (True, record_both (logged LogWarning st))
          else (False, logged LogWarning st)
      | Untyped \<Rightarrow> (True, record_both (logged LogInfo st)))"

section \<open>Sending the parts of a message\<close>

text \<open>
  The loop \<open>for i, part in enumerate(parts)\<close> of \<open>send_dm\<close> and of
  \<open>send_channel_message\<close>. The single send (\<open>_send_dm_single\<close>,
  \<open>_send_channel_message_single\<close>) talks to the rate limiters and the transport, so it is
  a parameter: a transformer of the outside world \<open>'w\<close> that returns its success.
  \<open>pause\<close> is \<open>asyncio.sleep(2.0)\<close>. The calls of the single send are returned in order,
  each with what it returned.
\<close>

fun send_parts ::
  "('w \<Rightarrow> pystr \<Rightarrow> bool \<times> 'w) \<Rightarrow> ('w \<Rightarrow> 'w) \<Rightarrow> pystr list \<Rightarrow> 'w
     \<Rightarrow> bool \<times> (pystr \<times> bool) list \<times> 'w" where
  "send_parts send_single pause [] w = (True, [], w)"
| "send_parts send_single pause (part # rest) w =
     (case send_single w part of (success, w') \<Rightarrow>
        if \<not> success then (False, [(part, False)], w')
        else
          (case send_parts send_single pause rest (if rest \<noteq> [] then pause w' else w') of
             (all_success, calls, w'') \<Rightarrow> (all_success, (part, True) # calls, w'')))"





section \<open>The connectivity cache\<close>

text \<open>
  \<open>InternetStatusCache\<close> with the dispatcher's \<open>_internet_cache_duration\<close>. Time is the
  float of \<open>time.time()\<close>, taken as a real number (rounding is not modelled). The clock and
  the probe are outside the program: \<open>clock k\<close> is what the \<open>k\<close>-th call of \<open>time.time()\<close>
  returns and \<open>probe k\<close> what the \<open>k\<close>-th connectivity probe returns; the state counts the
  calls made so far.
\<close>

record outside =
  clock :: "nat \<Rightarrow> real"
  probe :: "nat \<Rightarrow> bool"

record net_state =
  has_internet :: bool
  timestamp :: real
  clock_reads :: nat
  probes :: nat

definition internet_cache_duration :: real where
  "internet_cache_duration = 30"

text \<open>\<open>InternetStatusCache.is_valid\<close>, with the value \<open>now\<close> of its \<open>time.time()\<close>.\<close>

definition is_valid :: "net_state \<Rightarrow> real \<Rightarrow> real \<Rightarrow> bool" where
  "is_valid st cache_duration now = (now - timestamp st < cache_duration)"

text \<open>
  \<open>_check_internet_cached_async\<close>. The lock is held from the first clock reading to the
  return, so no other call of the asynchronous path runs in between: a call is one step.
  \<open>_check_internet_cached\<close> is the same sequence with the synchronous probe.
\<close>

definition check_internet_cached_async :: "outside \<Rightarrow> net_state \<Rightarrow> bool \<times> net_state" where
  "check_internet_cached_async env st =
     (let current_time = clock env (clock_reads st);
          now = clock env (clock_reads st + 1);
          st1 = st\<lparr>clock_reads := clock_reads st + 2\<rparr> in
      if is_valid st1 internet_cache_duration now then (has_internet st1, st1)
      else
        (let probed = probe env (probes st1) in
         (probed, st1\<lparr>has_internet := probed, timestamp := current_time,
                      probes := probes st1 + 1\<rparr>)))"

definition check_internet_cached :: "outside \<Rightarrow> net_state \<Rightarrow> bool \<times> net_state" where
  "check_internet_cached env st =
     (let current_time = clock env (clock_reads st);
          now = clock env (clock_reads st + 1);
          st1 = st\<lparr>clock_reads := clock_reads st + 2\<rparr> in
      if is_valid st1 internet_cache_duration now then (has_internet st1, st1)
      else
        (let probed = probe env (probes st1) in
         (probed, st1\<lparr>has_internet := probed, timestamp := current_time,
                      probes := probes st1 + 1\<rparr>)))"

section \<open>Messages and commands\<close>

text \<open>
  \<open>MeshMessage\<close>, as far as the dispatcher reads it, and the capability surface of a
  command plugin (\<open>BaseCommand\<close>). A command's predicates are read for one incoming
  message. \<open>execute\<close> runs the plugin's own code, which may send responses through the
  dispatcher: it transforms the dispatcher's state \<open>'s\<close> and either returns (with its
  success value and with \<open>command.last_response\<close> as it is afterwards) or raises.
\<close>

record message =
  content :: pystr
  is_dm :: bool
  sender_id :: pystr
  channel :: pystr

datatype exec_outcome = Returned "bool option" "pystr option" | Raised pystr

datatype cooldown = NoCooldownAccessor | GlobalCooldown int | PerUserCooldown "pystr \<Rightarrow> int"

record 's command =
  cmd_keywords :: "pystr list"
  should_execute :: "message \<Rightarrow> bool"
  can_execute :: "message \<Rightarrow> bool"
  can_execute_now :: "message \<Rightarrow> bool"
  requires_internet :: bool
  requires_dm :: bool
  is_channel_allowed :: "message \<Rightarrow> bool"
  requires_admin_access :: bool
  get_response_format :: "pystr option"
  format_response :: "message \<Rightarrow> pystr \<Rightarrow> pystr"
  get_remaining_cooldown :: cooldown
  has_record_execution :: bool
  execute :: "message \<Rightarrow> 's \<Rightarrow> exec_outcome \<times> 's"
  translate :: "string \<Rightarrow> pystr"

text \<open>Truthiness of an optional string: \<open>None\<close> and \<open>''\<close> are falsy.\<close>

definition truthy :: "pystr option \<Rightarrow> bool" where
  "truthy v = (case v of None \<Rightarrow> False | Some s \<Rightarrow> s \<noteq> [])"

text \<open>\<open>str.startswith\<close>\<close>

definition startswith :: "pystr \<Rightarrow> pystr \<Rightarrow> bool" where
  "startswith s pre = (take (length pre) s = pre)"

text \<open>
  \<open>str.lower\<close> is Python's case mapping over all of Unicode (it may even change the
  length of a string). It is not written out: every definition that calls it takes it as
  the parameter \<open>str_lower\<close>, and what is proved holds for every such function.

  The first lines of \<open>check_keywords\<close> and of \<open>execute_commands\<close>: \<open>content_lower\<close>.
\<close>

definition content_lower :: "(pystr \<Rightarrow> pystr) \<Rightarrow> message \<Rightarrow> pystr" where
  "content_lower str_lower msg =
     (let c = strip (content msg);
          c' = (if startswith c (cps ''!'') then strip (drop 1 c) else c)
      in str_lower c')"

section \<open>The matching engine\<close>

type_synonym matches = "(pystr \<times> pystr option) list"

text \<open>
  What \<open>check_keywords\<close> calls outside itself: \<open>format_keyword_response\<close> (\<open>None\<close> when it
  raises) and \<open>get_help_for_command\<close>.
\<close>

record helpers =
  format_keyword_response :: "pystr \<Rightarrow> message \<Rightarrow> pystr option"
  get_help_for_command :: "pystr \<Rightarrow> message \<Rightarrow> pystr"

datatype dispatch_error = FormattingRaised

text \<open>\<open>get_general_help\<close>: \<open>self.keywords.get('help', 'Help not configured')\<close>.\<close>

definition get_general_help :: "(pystr \<times> pystr) list \<Rightarrow> pystr" where
  "get_general_help kws =
     (case map_of kws (cps ''help'') of Some r \<Rightarrow> r | None \<Rightarrow> cps ''Help not configured'')"

definition help_keywords :: "(pystr \<Rightarrow> pystr) \<Rightarrow> (pystr \<times> 's command) list \<Rightarrow> pystr list" where
  "help_keywords str_lower cmds =
     (case map_of cmds (cps ''help'') of
        Some help_command \<Rightarrow> map str_lower (cmd_keywords help_command)
      | None \<Rightarrow> [cps ''help''])"

text \<open>
  The loop over the help keywords: \<open>None\<close> when no keyword applies, otherwise what
  \<open>check_keywords\<close> returns at once (or the exception of the formatter, which this path
  does not catch).
\<close>

fun help_sweep ::
  "helpers \<Rightarrow> (pystr \<times> pystr) list \<Rightarrow> message \<Rightarrow> pystr \<Rightarrow> pystr list
     \<Rightarrow> (dispatch_error + matches) option" where
  "help_sweep h kws msg cl [] = None"
| "help_sweep h kws msg cl (help_keyword # rest) =
     (if startswith cl (help_keyword @ cps '' '') then
        (let command_name = strip (drop (length help_keyword) cl);
             help_text = get_help_for_command h command_name msg in
         case format_keyword_response h help_text msg of
           None \<Rightarrow> Some (Inl FormattingRaised)
         | Some t \<Rightarrow> Some (Inr [(cps ''help'', Some t)]))
      else if cl = help_keyword then
        (case format_keyword_response h (get_general_help kws) msg of
           None \<Rightarrow> Some (Inl FormattingRaised)
         | Some t \<Rightarrow> Some (Inr [(cps ''help'', Some t)]))
      else help_sweep h kws msg cl rest)"

text \<open>
  The loop over \<open>self.commands.items()\<close>; the dictionary is the list of its items in
  insertion order. The synchronous connectivity check reads and updates the cache.
\<close>

fun command_sweep ::
  "outside \<Rightarrow> message \<Rightarrow> (pystr \<times> 's command) list \<Rightarrow> net_state \<Rightarrow> matches \<times> net_state" where
  "command_sweep env msg [] st = ([], st)"
| "command_sweep env msg ((command_name, c) # rest) st =
     (if should_execute c msg then
        (if \<not> can_execute c msg then command_sweep env msg rest st
         else
           (case (if requires_internet c then check_internet_cached env st else (True, st)) of
              (has_net, st1) \<Rightarrow>
                if \<not> has_net then command_sweep env msg rest st1
                else
                  (case command_sweep env msg rest st1 of
                     (ms, st2) \<Rightarrow>
                       ((if truthy (get_response_format c)
                         then (command_name,
                               Some (format_response c msg (the (get_response_format c))))
                         else (command_name, None)) # ms, st2))))
      else command_sweep env msg rest st)"

text \<open>
  The test at the head of the loop over \<open>self.keywords.items()\<close>:
  \<open>any(keyword.lower() in [k.lower() for k in cmd.keywords] for cmd in self.commands.values())\<close>.
\<close>

definition owned_by_command ::
  "(pystr \<Rightarrow> pystr) \<Rightarrow> (pystr \<times> 's command) list \<Rightarrow> pystr \<Rightarrow> bool" where
  "owned_by_command str_lower cmds keyword =
     list_ex (\<lambda>(n, cmd). str_lower keyword \<in> set (map str_lower (cmd_keywords cmd))) cmds"

fun keyword_sweep ::
  "(pystr \<Rightarrow> pystr) \<Rightarrow> helpers \<Rightarrow> (pystr \<times> 's command) list \<Rightarrow> message \<Rightarrow> pystr
     \<Rightarrow> (pystr \<times> pystr) list \<Rightarrow> matches" where
  "keyword_sweep str_lower h cmds msg cl [] = []"
| "keyword_sweep str_lower h cmds msg cl ((keyword, response_format) # rest) =
     (if owned_by_command str_lower cmds keyword then keyword_sweep str_lower h cmds msg cl rest
      else
        (let keyword_lower = str_lower keyword;
             response = (case format_keyword_response h response_format msg of
                           Some r \<Rightarrow> r | None \<Rightarrow> response_format) in
         if keyword_lower = cl
           then (keyword, Some response) # keyword_sweep str_lower h cmds msg cl rest
         else if startswith cl keyword_lower
                 \<and> (length cl = length keyword_lower \<or> cl ! length keyword_lower = 32)
           then (keyword, Some response) # keyword_sweep str_lower h cmds msg cl rest
         else keyword_sweep str_lower h cmds msg cl rest))"

definition check_keywords ::
  "(pystr \<Rightarrow> pystr) \<Rightarrow> outside \<Rightarrow> helpers \<Rightarrow> (pystr \<times> 's command) list
     \<Rightarrow> (pystr \<times> pystr) list \<Rightarrow> message \<Rightarrow> net_state
     \<Rightarrow> (dispatch_error + matches) \<times> net_state" where
  "check_keywords str_lower env h cmds kws msg st =
     (let cl = content_lower str_lower msg in
      case help_sweep h kws msg cl (help_keywords str_lower cmds) of
        Some r \<Rightarrow> (r, st)
      | None \<Rightarrow>
          (case command_sweep env msg cmds st of
             (ms, st') \<Rightarrow> (Inr (ms @ keyword_sweep str_lower h cmds msg cl kws), st')))"

text \<open>
  The claim's words for the same test: some registered command's keyword set contains the
  keyword, compared without regard to case (two strings are the same up to case when
  \<open>str.lower\<close> maps them to the same string).
\<close>

definition contained_ignoring_case ::
  "(pystr \<Rightarrow> pystr) \<Rightarrow> (pystr \<times> 's command) list \<Rightarrow> pystr \<Rightarrow> bool" where
  "contained_ignoring_case str_lower cmds keyword =
     (\<exists>entry \<in> set cmds. \<exists>k \<in> set (cmd_keywords (snd entry)). str_lower k = str_lower keyword)"

section \<open>The execution gate and the orchestrator\<close>

text \<open>
  What \<open>execute_commands\<close> does to the outside, in order: responses handed to
  \<open>send_response\<close>, records of the stats command, the cooldown bookkeeping of
  \<open>_record_execution\<close>, the settle delay, the capture of the web viewer and log lines.
\<close>

datatype event =
    ResponseSent pystr
  | StatsRecorded pystr bool
  | ExecutionRecorded pystr
  | Settled
  | Captured pystr bool
  | Logged log_level

record dispatcher =
  last_response :: "pystr option"
  net :: net_state
  events :: "event list"

definition emit :: "event \<Rightarrow> dispatcher \<Rightarrow> dispatcher" where
  "emit e st = st\<lparr>events := events st @ [e]\<rparr>"

text \<open>
  \<open>send_response\<close> as \<open>execute_commands\<close> uses it: it stores \<open>_last_response\<close> and hands
  the text to the delivery pipeline; its result is not read.
\<close>

definition send_response :: "pystr \<Rightarrow> dispatcher \<Rightarrow> dispatcher" where
  "send_response text st = emit (ResponseSent text) (st\<lparr>last_response := Some text\<rparr>)"

text \<open>\<open>if 'stats' in self.commands: ... stats_command.record_command(...)\<close>\<close>

definition record_stats :: "bool \<Rightarrow> pystr \<Rightarrow> bool \<Rightarrow> dispatcher \<Rightarrow> dispatcher" where
  "record_stats has_stats command_name response_sent st =
     (if has_stats then emit (StatsRecorded command_name response_sent) st else st)"

text \<open>The branch \<open>if not command.can_execute_now(message)\<close> (source lines 890-926).\<close>

definition gate_rejection ::
  "bool \<Rightarrow> pystr \<Rightarrow> dispatcher command \<Rightarrow> message \<Rightarrow> dispatcher \<Rightarrow> dispatcher" where
  "gate_rejection has_stats command_name c msg st =
     (let remaining = (case get_remaining_cooldown c of
                         NoCooldownAccessor \<Rightarrow> None
                       | GlobalCooldown r \<Rightarrow> Some r
                       | PerUserCooldown f \<Rightarrow> Some (f (sender_id msg))) in
      if requires_dm c \<and> \<not> is_dm msg then
        (if is_channel_allowed c msg
         then record_stats has_stats command_name True
                (send_response (translate c ''errors.dm_only'') st)
         else record_stats has_stats command_name False st)
      else if requires_admin_access c then
        record_stats has_stats command_name True
          (send_response (translate c ''errors.access_denied'') st)
      else if (case remaining of Some r \<Rightarrow> r > 0 | None \<Rightarrow> False) then
        record_stats has_stats command_name True
          (send_response (translate c ''errors.cooldown'') st)
      else record_stats has_stats command_name False st)"

text \<open>The branch of a missing connection (source lines 929-945).\<close>

definition no_internet_reply ::
  "bool \<Rightarrow> pystr \<Rightarrow> dispatcher command \<Rightarrow> dispatcher \<Rightarrow> dispatcher" where
  "no_internet_reply has_stats command_name c st =
     (let error_msg = translate c ''errors.no_internet'';
          error_msg' = (if error_msg = cps ''errors.no_internet''
                        then command_name @ cps '' unavailable: No internet connection available''
                        else error_msg) in
      record_stats has_stats command_name True
        (send_response error_msg' (emit (Logged LogWarning) st)))"

text \<open>
  The \<open>try\<close> block (source lines 947-1015). The first component of the result lists the
  commands whose \<open>execute\<close> was called.
\<close>

definition run_execute ::
  "bool \<Rightarrow> bool \<Rightarrow> pystr \<Rightarrow> dispatcher command \<Rightarrow> message \<Rightarrow> dispatcher
     \<Rightarrow> pystr list \<times> dispatcher" where
  "run_execute web_viewer has_stats command_name c msg st =
     (let st1 = (if has_record_execution c then emit (ExecutionRecorded command_name) st else st)
      in case execute c msg st1 of
           (Returned success cmd_last_response, st2) \<Rightarrow>
             (let st3 = emit Settled st2;
                  response_sent = (truthy cmd_last_response \<or> truthy (last_response st3));
                  st4 = record_stats has_stats command_name response_sent st3;
                  st5 = (if web_viewer
                         then emit (Captured command_name
                                      (case success of None \<Rightarrow> True | Some b \<Rightarrow> b)) st4
                         else st4)
              in ([command_name], st5))
         | (Raised e, st2) \<Rightarrow>
             (let st3 = send_response (translate c ''errors.execution_error'')
                          (emit (Logged LogError) st2);
                  st4 = record_stats has_stats command_name True st3;
                  st5 = (if web_viewer then emit (Captured command_name False) st4 else st4)
              in ([command_name], st5)))"

text \<open>
  The body of the loop of \<open>execute_commands\<close> for a command that has no response format
  and whose \<open>should_execute\<close> holds, up to the \<open>return\<close> that ends every path.
\<close>

definition run_command ::
  "outside \<Rightarrow> bool \<Rightarrow> bool \<Rightarrow> pystr \<Rightarrow> dispatcher command \<Rightarrow> message \<Rightarrow> dispatcher
     \<Rightarrow> pystr list \<times> dispatcher" where
  "run_command env web_viewer has_stats command_name c msg st0 =
     (let st = emit (Logged LogInfo) st0 in
      if \<not> can_execute_now c msg then ([], gate_rejection has_stats command_name c msg st)
      else if requires_internet c then
        (case check_internet_cached_async env (net st) of
           (has_net, n') \<Rightarrow>
             if \<not> has_net then ([], no_internet_reply has_stats command_name c (st\<lparr>net := n'\<rparr>))
             else run_execute web_viewer has_stats command_name c msg (st\<lparr>net := n'\<rparr>))
      else run_execute web_viewer has_stats command_name c msg st)"

fun execute_loop ::
  "outside \<Rightarrow> bool \<Rightarrow> bool \<Rightarrow> (pystr \<times> dispatcher command) list \<Rightarrow> message \<Rightarrow> dispatcher
     \<Rightarrow> pystr list \<times> dispatcher" where
  "execute_loop env web_viewer has_stats [] msg st = ([], st)"
| "execute_loop env web_viewer has_stats ((command_name, c) # rest) msg st =
     (if should_execute c msg then
        (if get_response_format c \<noteq> None
         then execute_loop env web_viewer has_stats rest msg st
         else run_command env web_viewer has_stats command_name c msg st)
      else execute_loop env web_viewer has_stats rest msg st)"

definition execute_commands ::
  "outside \<Rightarrow> bool \<Rightarrow> (pystr \<times> dispatcher command) list \<Rightarrow> message \<Rightarrow> dispatcher
     \<Rightarrow> pystr list \<times> dispatcher" where
  "execute_commands env web_viewer cmds msg st =
     execute_loop env web_viewer (map_of cmds (cps ''stats'') \<noteq> None) cmds msg st"

text \<open>A command that computes its own response and matches the message.\<close>

definition self_handling :: "'s command \<Rightarrow> message \<Rightarrow> bool" where
  "self_handling c msg = (should_execute c msg \<and> get_response_format c = None)"

section \<open>Example data\<close>

text \<open>A small registry, message and outside world on which the theorems below are instantiated.\<close>

text \<open>
  On a string of ASCII characters \<open>str.lower\<close> maps the letters \<open>A\<close> to \<open>Z\<close> to \<open>a\<close> to
  \<open>z\<close> and leaves every other character as it is. The example data is ASCII, so this
  function stands for \<open>str.lower\<close> there (and only there).
\<close>

definition lower_on_ascii :: "pystr \<Rightarrow> pystr" where
  "lower_on_ascii s = map (\<lambda>c. if 65 \<le> c \<and> c \<le> 90 then c + 32 else c) s"

definition example_command :: "pystr \<Rightarrow> pystr option \<Rightarrow> dispatcher command" where
  "example_command keyword fmt =
     \<lparr>cmd_keywords = [keyword],
      should_execute = (\<lambda>m. startswith (content_lower lower_on_ascii m) keyword),
      can_execute = (\<lambda>m. True),
      can_execute_now = (\<lambda>m. True),
      requires_internet = False,
      requires_dm = False,
      is_channel_allowed = (\<lambda>m. True),
      requires_admin_access = False,
      get_response_format = fmt,
      format_response = (\<lambda>m f. f),
      get_remaining_cooldown = NoCooldownAccessor,
      has_record_execution = False,
      execute = (\<lambda>m st. (Returned (Some True) None, send_response (cps ''done'') st)),
      translate = cps\<rparr>"

definition example_message :: message where
  "example_message = \<lparr>content = cps ''!Ping now '', is_dm = True, sender_id = cps ''alice'', channel = []\<rparr>"

definition example_helpers :: helpers where
  "example_helpers = \<lparr>format_keyword_response = (\<lambda>f m. Some f), get_help_for_command = (\<lambda>n m. n)\<rparr>"

definition example_outside :: outside where
  "example_outside = \<lparr>clock = (\<lambda>k. 1000 + real k), probe = (\<lambda>k. True)\<rparr>"

definition example_net :: net_state where
  "example_net = \<lparr>has_internet = True, timestamp = 0, clock_reads = 0, probes = 0\<rparr>"

definition example_dispatcher :: dispatcher where
  "example_dispatcher = \<lparr>last_response = None, net = example_net, events = []\<rparr>"

text \<open>
  Texts for the splitter: three words of 100 letters, and a word of 144 letters followed by
  ten words of 73 letters, each with a space behind it. \<open>plain\<close> holds for the characters
  at which the splitter finds no logical split point: one-byte characters other than
  whitespace and the punctuation it looks for.
\<close>

definition plain :: "nat \<Rightarrow> bool" where
  "plain c = (c < 128 \<and> \<not> is_space c \<and> c \<notin> {46, 33, 63, 44, 59})"

definition three_words :: pystr where
  "three_words = replicate 100 97 @ 32 # replicate 100 98 @ 32 # replicate 100 99"

definition word_token :: pystr where
  "word_token = replicate 73 98 @ [32]"

definition tokens :: "nat \<Rightarrow> pystr" where
  "tokens n = concat (replicate n word_token)"

definition long_words :: pystr where
  "long_words = replicate 144 97 @ tokens 10"

definition long_words_bodies :: "pystr list" where
  "long_words_bodies = replicate 144 97 # replicate 9 (replicate 73 98) @ [replicate 73 98 @ [32]]"


section \<open>Properties of the splitter\<close>

text \<open>
  C7. A content string that can be encoded and whose UTF-8 encoding is at most
  \<open>max_bytes\<close> long comes back as the single part, unchanged and without a prefix.
\<close>

theorem split_message_fits:
  assumes "encodable txt" and "int (utf8_len txt) \<le> max_bytes"
  shows "split_message txt (Some max_bytes) = Some (Inr [txt])"
  using assms by (simp add: split_message_def)

theorem split_message_fits_witness:
  "encodable (cps ''hello world'') \<and> int (utf8_len (cps ''hello world'')) \<le> 150
   \<and> split_message (cps ''hello world'') (Some 150) = Some (Inr [cps ''hello world''])"
proof -
  have e: "encodable (cps ''hello world'')"
    by (simp add: encodable_def cps_def is_surrogate_def)
  have l: "int (utf8_len (cps ''hello world'')) \<le> 150"
    by (simp add: utf8_len_def cps_def char_bytes_def)
  show ?thesis using e l split_message_fits [OF e l] by simp
qed

subsection \<open>Sizes\<close>

lemma char_bytes_bounds: "1 \<le> char_bytes c" "char_bytes c \<le> 4"
  by (simp_all add: char_bytes_def)

lemma utf8_len_Nil [simp]: "utf8_len [] = 0"
  by (simp add: utf8_len_def)

lemma utf8_len_Cons [simp]: "utf8_len (c # s) = char_bytes c + utf8_len s"
  by (simp add: utf8_len_def)

lemma utf8_len_append [simp]: "utf8_len (s @ t) = utf8_len s + utf8_len t"
  by (simp add: utf8_len_def)

lemma utf8_len_ge_length: "length s \<le> utf8_len s"
proof (induction s)
  case Nil
  then show ?case by simp
next
  case (Cons c s)
  with char_bytes_bounds(1) [of c] show ?case by simp
qed

lemma utf8_len_take_mono: "i \<le> j \<Longrightarrow> utf8_len (take i s) \<le> utf8_len (take j s)"
proof -
  assume "i \<le> j"
  then have "take j s = take i s @ take (j - i) (drop i s)"
    by (metis le_add_diff_inverse take_add)
  then show ?thesis by simp
qed

lemma utf8_len_take_le: "utf8_len (take i s) \<le> utf8_len s"
  by (metis append_take_drop_id le_add1 utf8_len_append)

lemma utf8_len_take1: "utf8_len (take 1 s) \<le> 4"
  using char_bytes_bounds(2) by (cases s) simp_all

lemma utf8_len_ascii: "\<forall>c \<in> set s. c < 128 \<Longrightarrow> utf8_len s = length s"
  by (induction s) (simp_all add: char_bytes_def)

subsection \<open>The binary search\<close>

lemma bsearch_done: "\<not> low < high \<Longrightarrow> bsearch t m low high = low"
  by (simp add: bsearch.simps)

lemma bsearch_up:
  "low < high \<Longrightarrow> int (utf8_len (take ((low + high + 1) div 2) t)) \<le> m \<Longrightarrow>
     bsearch t m low high = bsearch t m ((low + high + 1) div 2) high"
  by (subst bsearch.simps) (simp add: Let_def)

lemma bsearch_down:
  "low < high \<Longrightarrow> \<not> int (utf8_len (take ((low + high + 1) div 2) t)) \<le> m \<Longrightarrow>
     bsearch t m low high = bsearch t m low ((low + high + 1) div 2 - 1)"
  by (subst bsearch.simps) (simp add: Let_def)

lemma bsearch_range: "low \<le> high \<Longrightarrow> low \<le> bsearch t m low high \<and> bsearch t m low high \<le> high"
proof (induction t m low high rule: bsearch.induct)
  case (1 t m low high)
  show ?case
  proof (cases "low < high")
    case False
    with "1.prems" show ?thesis by (simp add: bsearch.simps)
  next
    case True
    let ?mid = "(low + high + 1) div 2"
    from True have mid: "low < ?mid" "?mid \<le> high" by linarith+
    show ?thesis
    proof (cases "int (utf8_len (take ?mid t)) \<le> m")
      case fits: True
      from "1.IH"(1) [OF True refl fits] mid
      have "?mid \<le> bsearch t m ?mid high \<and> bsearch t m ?mid high \<le> high" by simp
      with mid show ?thesis unfolding bsearch_up [OF True fits] by linarith
    next
      case toobig: False
      from mid have "low \<le> ?mid - 1" by linarith
      from "1.IH"(2) [OF True refl toobig this]
      have "low \<le> bsearch t m low (?mid - 1) \<and> bsearch t m low (?mid - 1) \<le> ?mid - 1" .
      with mid show ?thesis unfolding bsearch_down [OF True toobig] by linarith
    qed
  qed
qed

lemma bsearch_fits:
  "low \<le> high \<Longrightarrow> int (utf8_len (take low t)) \<le> m \<Longrightarrow>
     int (utf8_len (take (bsearch t m low high) t)) \<le> m"
proof (induction t m low high rule: bsearch.induct)
  case (1 t m low high)
  show ?case
  proof (cases "low < high")
    case False
    with "1.prems" show ?thesis by (simp add: bsearch.simps)
  next
    case True
    let ?mid = "(low + high + 1) div 2"
    from True have mid: "low < ?mid" "?mid \<le> high" by linarith+
    show ?thesis
    proof (cases "int (utf8_len (take ?mid t)) \<le> m")
      case fits: True
      from "1.IH"(1) [OF True refl fits mid(2) fits]
      show ?thesis by (simp add: bsearch_up [OF True fits])
    next
      case toobig: False
      from mid have "low \<le> ?mid - 1" by linarith
      from "1.IH"(2) [OF True refl toobig this "1.prems"(2)]
      show ?thesis by (simp add: bsearch_down [OF True toobig])
    qed
  qed
qed

lemma bsearch_maximal:
  "low \<le> k \<Longrightarrow> k \<le> high \<Longrightarrow> int (utf8_len (take k t)) \<le> m \<Longrightarrow> k \<le> bsearch t m low high"
proof (induction t m low high rule: bsearch.induct)
  case (1 t m low high)
  show ?case
  proof (cases "low < high")
    case False
    with "1.prems" show ?thesis by (simp add: bsearch.simps)
  next
    case True
    let ?mid = "(low + high + 1) div 2"
    from True have mid: "low < ?mid" "?mid \<le> high" by linarith+
    show ?thesis
    proof (cases "int (utf8_len (take ?mid t)) \<le> m")
      case fits: True
      have e: "bsearch t m low high = bsearch t m ?mid high"
        by (rule bsearch_up [OF True fits])
      show ?thesis
      proof (cases "?mid \<le> k")
        case True
        from "1.IH"(1) [OF \<open>low < high\<close> refl fits True "1.prems"(2,3)] show ?thesis by (simp add: e)
      next
        case False
        with bsearch_range [OF mid(2), of t m] show ?thesis by (simp add: e)
      qed
    next
      case toobig: False
      have e: "bsearch t m low high = bsearch t m low (?mid - 1)"
        by (rule bsearch_down [OF True toobig])
      have "k < ?mid"
      proof (rule ccontr)
        assume "\<not> k < ?mid"
        then have "utf8_len (take ?mid t) \<le> utf8_len (take k t)"
          by (intro utf8_len_take_mono) simp
        with "1.prems"(3) toobig show False by simp
      qed
      then have "k \<le> ?mid - 1" by simp
      from "1.IH"(2) [OF True refl toobig "1.prems"(1) this "1.prems"(3)] show ?thesis by (simp add: e)
    qed
  qed
qed

lemma find_byte_safe_split_le: "find_byte_safe_split t m \<le> length t"
  using bsearch_range [of 0 "length t" t m] by (simp add: find_byte_safe_split_def)

lemma find_byte_safe_split_fits:
  "0 \<le> m \<Longrightarrow> int (utf8_len (take (find_byte_safe_split t m) t)) \<le> m"
  using bsearch_fits [of 0 "length t" t m] by (simp add: find_byte_safe_split_def)

lemma find_byte_safe_split_maximal:
  "k \<le> length t \<Longrightarrow> int (utf8_len (take k t)) \<le> m \<Longrightarrow> k \<le> find_byte_safe_split t m"
  using bsearch_maximal [of 0 k "length t" t m] by (simp add: find_byte_safe_split_def)

lemma find_byte_safe_split_pos:
  assumes "t \<noteq> []" and "4 \<le> m"
  shows "1 \<le> find_byte_safe_split t m"
proof -
  from assms(1) have "1 \<le> length t" by (cases t) simp_all
  moreover from utf8_len_take1 [of t] assms(2) have "int (utf8_len (take 1 t)) \<le> m" by simp
  ultimately show ?thesis by (rule find_byte_safe_split_maximal)
qed

subsection \<open>Stripping\<close>

lemma lstrip_decomp: "\<exists>ws. blank ws \<and> s = ws @ lstrip s"
proof -
  have "s = takeWhile is_space s @ dropWhile is_space s" by simp
  moreover have "blank (takeWhile is_space s)"
    by (simp add: blank_def list_all_iff) (metis set_takeWhileD)
  ultimately show ?thesis unfolding lstrip_def by blast
qed

lemma rstrip_decomp: "\<exists>ws. blank ws \<and> s = rstrip s @ ws"
proof -
  have "rev s = takeWhile is_space (rev s) @ dropWhile is_space (rev s)" by simp
  then have "s = rev (dropWhile is_space (rev s)) @ rev (takeWhile is_space (rev s))"
    by (metis rev_append rev_rev_ident)
  moreover have "blank (rev (takeWhile is_space (rev s)))"
    by (simp add: blank_def list_all_iff) (metis set_takeWhileD)
  ultimately show ?thesis unfolding rstrip_def by blast
qed

lemma length_lstrip_le: "length (lstrip s) \<le> length s"
  by (simp add: lstrip_def length_dropWhile_le)

lemma blank_append [simp]: "blank (s @ t) = (blank s \<and> blank t)"
  by (simp add: blank_def)

lemma blank_Nil [simp]: "blank []"
  by (simp add: blank_def)

subsection \<open>The logical split point\<close>

lemma first_punct_pos: "first_punct chunk ps = Some i \<Longrightarrow> 1 \<le> i"
proof (induction ps)
  case Nil
  then show ?case by simp
next
  case (Cons p ps)
  show ?case
  proof (cases "rfind chunk p > int (length chunk) div 2")
    case True
    with Cons.prems have "i = nat (rfind chunk p + int (length p))" by (simp add: Let_def)
    moreover from True have "0 < rfind chunk p" by linarith
    ultimately show ?thesis by linarith
  next
    case False
    with Cons show ?thesis by (simp add: Let_def)
  qed
qed

lemma logical_split_pos:
  assumes "1 \<le> k"
  shows "1 \<le> logical_split remaining k"
proof -
  let ?chunk = "take k remaining"
  let ?half = "int (length ?chunk) div 2"
  have h: "\<And>x::int. ?half < x \<Longrightarrow> 1 \<le> nat (x + 1)" by linarith
  show ?thesis
  proof (cases "rfind ?chunk (cps [CHR 0x0A]) > ?half")
    case True
    then show ?thesis by (simp add: logical_split_def Let_def h)
  next
    case nl: False
    show ?thesis
    proof (cases "first_punct ?chunk [cps ''. '', cps ''! '', cps ''? '']")
      case (Some i)
      from first_punct_pos [OF Some] nl Some show ?thesis
        by (simp add: logical_split_def Let_def del: first_punct.simps)
    next
      case p1: None
      show ?thesis
      proof (cases "first_punct ?chunk [cps '', '', cps ''; '']")
        case (Some i)
        from first_punct_pos [OF Some] nl p1 Some show ?thesis
          by (simp add: logical_split_def Let_def del: first_punct.simps)
      next
        case p2: None
        show ?thesis
        proof (cases "rfind ?chunk (cps '' '') > ?half")
          case True
          with nl p1 p2 h [OF True] show ?thesis
            by (simp add: logical_split_def Let_def del: first_punct.simps)
        next
          case False
          with nl p1 p2 assms show ?thesis
            by (simp add: logical_split_def Let_def del: first_punct.simps)
        qed
      qed
    qed
  qed
qed

subsection \<open>One pass of the loop\<close>

lemma split_step_empty: "split_step mb est ([], pn, ps) = Inr ps"
  by (simp add: split_step_def)

lemma split_step_last:
  "remaining \<noteq> [] \<Longrightarrow> int (utf8_len remaining) \<le> mb - int (utf8_len (part_prefix pn est)) \<Longrightarrow>
     split_step mb est (remaining, pn, ps) = Inr (ps @ [part_prefix pn est @ remaining])"
  by (simp add: split_step_def Let_def)

lemma split_step_more:
  "remaining \<noteq> [] \<Longrightarrow> \<not> int (utf8_len remaining) \<le> mb - int (utf8_len (part_prefix pn est)) \<Longrightarrow>
     k = logical_split remaining
           (find_byte_safe_split remaining (mb - int (utf8_len (part_prefix pn est)))) \<Longrightarrow>
     split_step mb est (remaining, pn, ps)
       = Inl (lstrip (drop k remaining), pn + 1, ps @ [part_prefix pn est @ rstrip (take k remaining)])"
  by (simp add: split_step_def Let_def)

lemma split_step_cases:
  obtains (empty) "remaining = []" "split_step mb est (remaining, pn, ps) = Inr ps"
  | (last) "remaining \<noteq> []" "int (utf8_len remaining) \<le> mb - int (utf8_len (part_prefix pn est))"
      "split_step mb est (remaining, pn, ps) = Inr (ps @ [part_prefix pn est @ remaining])"
  | (more) k where "remaining \<noteq> []"
      "\<not> int (utf8_len remaining) \<le> mb - int (utf8_len (part_prefix pn est))"
      "k = logical_split remaining
           (find_byte_safe_split remaining (mb - int (utf8_len (part_prefix pn est))))"
      "split_step mb est (remaining, pn, ps)
         = Inl (lstrip (drop k remaining), pn + 1,
                ps @ [part_prefix pn est @ rstrip (take k remaining)])"
proof (cases "remaining = []")
  case True
  then show ?thesis using empty split_step_empty by simp
next
  case ne: False
  show ?thesis
  proof (cases "int (utf8_len remaining) \<le> mb - int (utf8_len (part_prefix pn est))")
    case True
    with ne show ?thesis using last split_step_last by simp
  next
    case False
    with ne show ?thesis using more split_step_more by simp
  qed
qed

text \<open>With four bytes left after the prefix, a pass that goes on shortens the text.\<close>

lemma split_step_shortens:
  assumes "split_step mb est (remaining, pn, ps) = Inl (remaining', pn', ps')"
    and "4 \<le> mb - int (utf8_len (part_prefix pn est))"
  shows "length remaining' < length remaining"
proof (cases rule: split_step_cases [of remaining mb est pn ps])
  case empty
  with assms(1) show ?thesis by simp
next
  case last
  with assms(1) show ?thesis by simp
next
  case (more k)
  from more(1) assms(2) have "1 \<le> find_byte_safe_split remaining (mb - int (utf8_len (part_prefix pn est)))"
    by (rule find_byte_safe_split_pos)
  then have "1 \<le> k" unfolding more(3) by (rule logical_split_pos)
  moreover from more(4) assms(1) have "remaining' = lstrip (drop k remaining)" by simp
  moreover have "length (lstrip (drop k remaining)) \<le> length remaining - k"
    using length_lstrip_le [of "drop k remaining"] by simp
  moreover from more(1) have "0 < length remaining" by simp
  ultimately have "length (lstrip (drop k remaining)) < length remaining"
    and "remaining' = lstrip (drop k remaining)" by linarith+
  then show ?thesis by simp
qed

subsection \<open>Termination\<close>

lemma budget_ok_step:
  "budget_ok mb est st \<Longrightarrow> split_step mb est st = Inl st' \<Longrightarrow> budget_ok mb est st'"
  unfolding budget_ok_def
proof (intro allI impI)
  fix n remaining pn ps
  assume a: "\<forall>n remaining pn ps. state_at mb est st n = Some (remaining, pn, ps) \<longrightarrow>
      remaining \<noteq> [] \<longrightarrow> 4 \<le> mb - int (utf8_len (part_prefix pn est))"
    and s: "split_step mb est st = Inl st'"
    and b: "state_at mb est st' n = Some (remaining, pn, ps)" and r: "remaining \<noteq> []"
  from s b have "state_at mb est st (Suc n) = Some (remaining, pn, ps)" by simp
  with a r show "4 \<le> mb - int (utf8_len (part_prefix pn est))" by blast
qed

lemma split_loop_returns:
  "budget_ok mb est st \<Longrightarrow> \<exists>parts. split_loop mb est st = Some parts"
proof (induction "length (fst st)" arbitrary: st rule: less_induct)
  case less
  obtain remaining pn ps where st: "st = (remaining, pn, ps)" by (cases st)
  show ?case
  proof (cases "split_step mb est st")
    case (Inr parts)
    then show ?thesis by (subst split_loop.simps) simp
  next
    case (Inl st')
    obtain remaining' pn' ps' where st': "st' = (remaining', pn', ps')" by (cases st')
    from Inl st have ne: "remaining \<noteq> []" by (auto simp: split_step_def)
    from less.prems have "4 \<le> mb - int (utf8_len (part_prefix pn est))"
      unfolding budget_ok_def using ne st state_at.simps(1) by blast
    with Inl have "length remaining' < length remaining"
      unfolding st st' by (rule split_step_shortens)
    then have "length (fst st') < length (fst st)" by (simp add: st st')
    from less.hyps [OF this budget_ok_step [OF less.prems Inl]]
    obtain parts where "split_loop mb est st' = Some parts" by blast
    with Inl show ?thesis by (subst split_loop.simps) simp
  qed
qed

lemma state_at_shortens:
  "budget_ok mb est st \<Longrightarrow> state_at mb est st n = Some (remaining, pn, ps) \<Longrightarrow>
     state_at mb est st (Suc n) = Some (remaining', pn', ps') \<Longrightarrow>
     length remaining' < length remaining"
proof (induction n arbitrary: st)
  case 0
  then have st: "st = (remaining, pn, ps)" by simp
  from 0(3) have s: "split_step mb est st = Inl (remaining', pn', ps')"
    by (simp split: sum.splits)
  then have "remaining \<noteq> []" unfolding st by (auto simp: split_step_def)
  with 0(1) have "4 \<le> mb - int (utf8_len (part_prefix pn est))"
    unfolding budget_ok_def using st state_at.simps(1) by blast
  with s show ?case unfolding st by (rule split_step_shortens)
next
  case (Suc n)
  from Suc.prems(2) obtain st' where s: "split_step mb est st = Inl st'"
    by (cases "split_step mb est st") simp_all
  with Suc.prems have "state_at mb est st' n = Some (remaining, pn, ps)"
    "state_at mb est st' (Suc n) = Some (remaining', pn', ps')" by simp_all
  with Suc.IH [OF budget_ok_step [OF Suc.prems(1) s]] show ?case by blast
qed

subsection \<open>The characters of a prefix\<close>

lemma digits_chars: "c \<in> set (digits n) \<Longrightarrow> 48 \<le> c \<and> c \<le> 57"
proof (induction n arbitrary: c rule: digits.induct)
  case (1 n)
  show ?case
  proof (cases "n < 10")
    case True
    with "1.prems" show ?thesis by (simp add: digits.simps)
  next
    case False
    with "1.prems" have "c \<in> set (digits (n div 10)) \<or> c = 48 + n mod 10"
      by (subst (asm) digits.simps) auto
    then show ?thesis
    proof
      assume "c \<in> set (digits (n div 10))"
      with "1.IH" False show ?thesis by blast
    next
      assume "c = 48 + n mod 10"
      moreover have "n mod 10 < 10" by simp
      ultimately show ?thesis by linarith
    qed
  qed
qed

lemma str_int_chars: "c \<in> set (str_int i) \<Longrightarrow> c \<noteq> 93"
  using digits_chars [of c] by (auto simp: str_int_def split: if_splits)

lemma cps_simps [simp]:
  "cps ''['' = [91]" "cps ''/'' = [47]" "cps ''] '' = [93, 32]"
  by (simp_all add: cps_def)

lemma part_prefix_shape:
  "\<exists>pre. part_prefix k n = pre @ [93, 32] \<and> 93 \<notin> set pre"
proof -
  have "part_prefix k n = (91 # str_int k @ 47 # str_int n) @ [93, 32]"
    by (simp add: part_prefix_def)
  moreover have "93 \<notin> set (91 # str_int k @ 47 # str_int n)"
    using str_int_chars by auto
  ultimately show ?thesis by blast
qed

lemma occurs_at_nth:
  assumes "occurs_at s (c # sub) i" and "i < length s"
  shows "s ! i = c"
proof -
  from assms(2) have "drop i s = s ! i # drop (Suc i) s"
    by (rule Cons_nth_drop_Suc [symmetric])
  with assms(1) show ?thesis by (simp add: occurs_at_def)
qed

text \<open>\<open>part.find('] ')\<close> finds the end of the prefix, whatever the body holds.\<close>

lemma find_str_bracket:
  assumes "93 \<notin> set pre"
  shows "find_str (pre @ 93 # 32 # body) [93, 32] = int (length pre)"
proof -
  let ?s = "pre @ 93 # 32 # body"
  let ?n = "length ?s + 1 - length [93, 32::nat]"
  have n: "?n = length pre + Suc (length body)" by simp
  have split: "[0..<?n] = [0..<length pre] @ length pre # [Suc (length pre)..<?n]"
  proof -
    have "[0..<length pre + Suc (length body)] = [0..<length pre] @ [length pre..<length pre + Suc (length body)]"
      using upt_add_eq_append [of 0 "length pre" "Suc (length body)"] by simp
    moreover have "[length pre..<length pre + Suc (length body)]
        = length pre # [Suc (length pre)..<length pre + Suc (length body)]"
      by (rule upt_conv_Cons) simp
    ultimately show ?thesis unfolding n by simp
  qed
  have none: "filter (occurs_at ?s [93, 32]) [0..<length pre] = []"
  proof -
    have "\<not> occurs_at ?s [93, 32] i" if "i < length pre" for i
    proof
      assume "occurs_at ?s [93, 32] i"
      moreover from that have "i < length ?s" by simp
      ultimately have "?s ! i = 93" by (rule occurs_at_nth)
      with that have "pre ! i = 93" by (simp add: nth_append)
      with that assms show False by (metis nth_mem)
    qed
    then show ?thesis by (auto simp: filter_empty_conv)
  qed
  have here: "occurs_at ?s [93, 32] (length pre)" by (simp add: occurs_at_def)
  show ?thesis
    unfolding find_str_def split by (simp add: none here del: upt_Suc)
qed

lemma strip_prefix:
  "drop (nat (find_str (part_prefix k n @ body) (cps ''] '') + 2)) (part_prefix k n @ body) = body"
proof -
  from part_prefix_shape [of k n] obtain pre where
    p: "part_prefix k n = pre @ [93, 32]" and q: "93 \<notin> set pre" by blast
  have "find_str (part_prefix k n @ body) (cps ''] '') = int (length pre)"
    using find_str_bracket [OF q, of body] by (simp add: p)
  then show ?thesis by (simp add: p nat_add_distrib)
qed

subsection \<open>Numbering\<close>

lemma length_number_from [simp]: "length (number_from n k bodies) = length bodies"
  by (induction bodies arbitrary: k) simp_all

lemma number_from_append:
  "number_from n k (bs @ cs) = number_from n k bs @ number_from n (k + int (length bs)) cs"
  by (induction bs arbitrary: k) (simp_all add: add.assoc)

lemma nth_number_from:
  "i < length bodies \<Longrightarrow> number_from n k bodies ! i = part_prefix (k + int i) n @ bodies ! i"
proof (induction bodies arbitrary: k i)
  case Nil
  then show ?case by simp
next
  case (Cons b bodies)
  show ?case
  proof (cases i)
    case 0
    then show ?thesis by simp
  next
    case (Suc j)
    with Cons.prems have "j < length bodies" by simp
    from Cons.IH [OF this, of "k + 1"] Suc show ?thesis by (simp add: algebra_simps)
  qed
qed

lemma renumber_aux:
  "map (\<lambda>(i, part). part_prefix i t @ drop (nat (find_str part (cps ''] '') + 2)) part)
       (zip [k..k + int (length bodies) - 1] (number_from e k bodies))
     = number_from t k bodies"
proof (induction bodies arbitrary: k)
  case Nil
  then show ?case by simp
next
  case (Cons b bodies)
  have u: "[k..k + int (length (b # bodies)) - 1] = k # [k + 1..(k + 1) + int (length bodies) - 1]"
    by (subst upto_rec1) (simp_all add: add.assoc add.commute)
  show ?case
    unfolding u using Cons.IH [of "k + 1"] by (simp add: strip_prefix del: cps_simps drop_append)
qed

lemma renumber_number_from:
  "renumber (number_from e 1 bodies) = number_from (int (length bodies)) 1 bodies"
  using renumber_aux [of "int (length bodies)" 1 bodies e]
  by (simp add: renumber_def Let_def)

subsection \<open>What the loop returns\<close>

lemma interleave_append:
  "length bs = length gs \<Longrightarrow> interleave (bs @ cs) (gs @ hs) = interleave bs gs @ interleave cs hs"
  by (induction bs gs rule: list_induct2) simp_all

lemma split_loop_shape:
  assumes "split_loop mb est st = Some parts"
  shows "loop_shape est st parts"
proof (rule split_loop.raw_induct [where P = "\<lambda>mb est st parts. loop_shape est st parts", OF _ assms])
  fix loop mb est st parts
  assume IH: "\<And>mb est st parts. loop mb est st = Some parts \<Longrightarrow> loop_shape est st parts"
    and eq: "(case split_step mb est st of Inl st' \<Rightarrow> loop mb est st' | Inr parts \<Rightarrow> Some parts)
               = Some parts"
  obtain remaining pn ps where st: "st = (remaining, pn, ps)" by (cases st)
  show "loop_shape est st parts"
  proof (cases rule: split_step_cases [of remaining mb est pn ps])
    case empty
    with eq st have "parts = ps" by simp
    then have "parts = ps @ number_from est pn [] \<and> length ([]::pystr list) = length ([]::pystr list)
        \<and> list_all blank [] \<and> [] = interleave [] []"
      by simp
    then show ?thesis unfolding st loop_shape_def empty(1) by (metis fst_conv snd_conv)
  next
    case last
    with eq st have "parts = ps @ [part_prefix pn est @ remaining]" by simp
    then have "parts = ps @ number_from est pn [remaining] \<and> length [[]::pystr] = length [remaining]
        \<and> list_all blank [[]] \<and> remaining = interleave [remaining] [[]]"
      by simp
    then show ?thesis unfolding st loop_shape_def by (metis fst_conv snd_conv)
  next
    case (more k)
    let ?body = "rstrip (take k remaining)"
    let ?rest = "lstrip (drop k remaining)"
    from more(4) eq st
    have "loop mb est (?rest, pn + 1, ps @ [part_prefix pn est @ ?body]) = Some parts" by simp
    from IH [OF this] obtain bodies gaps where
      p: "parts = (ps @ [part_prefix pn est @ ?body]) @ number_from est (pn + 1) bodies"
      and l: "length gaps = length bodies" and b: "list_all blank gaps"
      and r: "?rest = interleave bodies gaps" unfolding loop_shape_def by auto
    from rstrip_decomp [of "take k remaining"] obtain w1 where
      w1: "blank w1" "take k remaining = ?body @ w1" by blast
    from lstrip_decomp [of "drop k remaining"] obtain w2 where
      w2: "blank w2" "drop k remaining = w2 @ ?rest" by blast
    have "take k remaining @ drop k remaining = (?body @ w1) @ (w2 @ ?rest)"
      by (rule arg_cong2 [where f = "(@)", OF w1(2) w2(2)])
    then have "remaining = ?body @ (w1 @ w2) @ ?rest" by simp
    then have "remaining = interleave (?body # bodies) ((w1 @ w2) # gaps)"
      using r by simp
    moreover have "parts = ps @ number_from est pn (?body # bodies)" using p by simp
    moreover have "length ((w1 @ w2) # gaps) = length (?body # bodies)" using l by simp
    moreover have "list_all blank ((w1 @ w2) # gaps)" using b w1(1) w2(1) by simp
    ultimately show ?thesis unfolding st loop_shape_def by (metis fst_conv snd_conv)
  qed
qed

text \<open>What \<open>split_message\<close> returns for a text that does not fit.\<close>

lemma split_message_shape:
  assumes "split_message txt (Some mb) = Some (Inr parts)" and "\<not> int (utf8_len txt) \<le> mb"
  shows "\<exists>bodies gaps. parts = number_from (int (length bodies)) 1 bodies
           \<and> length gaps = length bodies \<and> list_all blank gaps
           \<and> txt = interleave bodies gaps"
proof -
  let ?est = "estimated_parts txt mb"
  from assms obtain parts0 where
    l: "split_loop mb ?est (txt, 1, []) = Some parts0"
    and f: "parts = (if int (length parts0) \<noteq> ?est then renumber parts0 else parts0)"
    by (auto simp: split_message_def Let_def split: if_splits option.splits)
  from split_loop_shape [OF l] obtain bodies gaps where
    p: "parts0 = number_from ?est 1 bodies" and g: "length gaps = length bodies"
    "list_all blank gaps" "txt = interleave bodies gaps" unfolding loop_shape_def by auto
  have "parts = number_from (int (length bodies)) 1 bodies"
  proof (cases "int (length parts0) \<noteq> ?est")
    case True
    with f p show ?thesis by (simp add: renumber_number_from)
  next
    case False
    with f p show ?thesis by simp
  qed
  with g show ?thesis by blast
qed

subsection \<open>Evaluating the splitter on texts of plain ASCII words\<close>

lemma rfind_absent:
  assumes "c \<notin> set s"
  shows "rfind s (c # sub) = -1"
proof -
  have "\<not> occurs_at s (c # sub) i" if "i < length s" for i
    using occurs_at_nth [of s c sub i] that assms by (metis nth_mem)
  then have "filter (occurs_at s (c # sub)) (rev [0..<length s + 1 - length (c # sub)]) = []"
    by (auto simp: filter_empty_conv)
  then show ?thesis by (simp add: rfind_def)
qed

lemma rfind_last_char:
  assumes "c \<notin> set ys"
  shows "rfind (xs @ c # ys) [c] = int (length xs)"
proof -
  let ?s = "xs @ c # ys"
  define later where "later = [Suc (length xs)..<length xs + Suc (length ys)]"
  define earlier where "earlier = [0..<length xs]"
  have n: "length ?s + 1 - length [c] = length xs + Suc (length ys)" by simp
  have "[0..<length xs + Suc (length ys)] = [0..<length xs] @ [length xs..<length xs + Suc (length ys)]"
    using upt_add_eq_append [of 0 "length xs" "Suc (length ys)"] by simp
  moreover have "[length xs..<length xs + Suc (length ys)]
      = length xs # [Suc (length xs)..<length xs + Suc (length ys)]"
    by (rule upt_conv_Cons) simp
  ultimately have split: "rev [0..<length ?s + 1 - length [c]]
      = rev later @ length xs # rev earlier"
    unfolding n later_def earlier_def by simp
  have none: "filter (occurs_at ?s [c]) (rev later) = []"
  proof -
    have "\<not> occurs_at ?s [c] i" if "Suc (length xs) \<le> i" "i < length xs + Suc (length ys)" for i
    proof
      assume "occurs_at ?s [c] i"
      moreover from that have "i < length ?s" by simp
      ultimately have "?s ! i = c" by (rule occurs_at_nth)
      moreover from that have "?s ! i = ys ! (i - Suc (length xs))"
        by (simp add: nth_append nth_Cons')
      moreover from that have "i - Suc (length xs) < length ys" by linarith
      ultimately show False using assms by (metis nth_mem)
    qed
    then show ?thesis unfolding later_def by (auto simp: filter_empty_conv)
  qed
  have here: "occurs_at ?s [c] (length xs)" by (simp add: occurs_at_def)
  show ?thesis unfolding rfind_def split by (simp add: none here)
qed

lemma first_punct_absent:
  "\<forall>p \<in> set ps. p \<noteq> [] \<and> hd p \<notin> set chunk \<Longrightarrow> first_punct chunk ps = None"
proof (induction ps)
  case Nil
  then show ?case by simp
next
  case (Cons p ps)
  then obtain c sub where p: "p = c # sub" and c: "c \<notin> set chunk" by (cases p) auto
  from Cons show ?case by (simp add: p rfind_absent [OF c] Let_def)
qed

lemma plain_excludes:
  "plain c \<or> c = 32 \<Longrightarrow> c \<noteq> 10 \<and> c \<noteq> 46 \<and> c \<noteq> 33 \<and> c \<noteq> 63 \<and> c \<noteq> 44 \<and> c \<noteq> 59"
  by (auto simp: plain_def is_space_def)

lemma plain_not_space: "plain c \<Longrightarrow> \<not> is_space c \<and> c \<noteq> 32 \<and> c < 128"
  by (auto simp: plain_def is_space_def)

lemma plain_chunk_no_punct:
  assumes "\<forall>c \<in> set chunk. plain c \<or> c = 32"
  shows "rfind chunk (cps [CHR 0x0A]) = -1"
    and "first_punct chunk [cps ''. '', cps ''! '', cps ''? ''] = None"
    and "first_punct chunk [cps '', '', cps ''; ''] = None"
proof -
  from assms plain_excludes have n: "10 \<notin> set chunk" "46 \<notin> set chunk" "33 \<notin> set chunk"
    "63 \<notin> set chunk" "44 \<notin> set chunk" "59 \<notin> set chunk"
    by blast+
  show "rfind chunk (cps [CHR 0x0A]) = -1" using rfind_absent [OF n(1), of "[]"] by (simp add: cps_def)
  show "first_punct chunk [cps ''. '', cps ''! '', cps ''? ''] = None"
    by (rule first_punct_absent) (simp add: cps_def n)
  show "first_punct chunk [cps '', '', cps ''; ''] = None"
    by (rule first_punct_absent) (simp add: cps_def n)
qed

lemma plain_chunk_size:
  assumes "\<forall>c \<in> set chunk. plain c \<or> c = 32"
  shows "utf8_len chunk = length chunk"
proof (rule utf8_len_ascii)
  show "\<forall>c \<in> set chunk. c < 128"
  proof
    fix c assume "c \<in> set chunk"
    with assms have "plain c \<or> c = 32" by blast
    then show "c < 128" using plain_not_space [of c] by auto
  qed
qed

text \<open>The byte-safe index of a text that starts with \<open>a\<close> one-byte characters, for \<open>a\<close> bytes.\<close>

lemma find_byte_safe_split_ascii:
  assumes "\<forall>c \<in> set chunk. plain c \<or> c = 32" and "zs \<noteq> []"
  shows "find_byte_safe_split (chunk @ zs) (int (length chunk)) = length chunk"
proof -
  let ?r = "find_byte_safe_split (chunk @ zs) (int (length chunk))"
  have "int (utf8_len (take (length chunk) (chunk @ zs))) \<le> int (length chunk)"
    by (simp add: plain_chunk_size [OF assms(1)])
  then have "length chunk \<le> ?r" by (intro find_byte_safe_split_maximal) simp_all
  moreover have "?r \<le> length chunk"
  proof -
    have "?r \<le> length (chunk @ zs)" by (rule find_byte_safe_split_le)
    then have "length (take ?r (chunk @ zs)) = ?r" by simp
    then have "?r \<le> utf8_len (take ?r (chunk @ zs))"
      using utf8_len_ge_length [of "take ?r (chunk @ zs)"] by simp
    moreover have "int (utf8_len (take ?r (chunk @ zs))) \<le> int (length chunk)"
      by (rule find_byte_safe_split_fits) simp
    ultimately show ?thesis by linarith
  qed
  ultimately show ?thesis by (rule antisym [rotated])
qed

lemma rstrip_plain: "xs \<noteq> [] \<Longrightarrow> \<not> is_space (last xs) \<Longrightarrow> rstrip xs = xs"
  by (cases xs rule: rev_cases) (simp_all add: rstrip_def)

lemma rstrip_space: "rstrip (xs @ [32]) = rstrip xs"
  by (simp add: rstrip_def is_space_def)

lemma lstrip_plain: "\<not> is_space c \<Longrightarrow> lstrip (c # s) = c # s"
  by (simp add: lstrip_def)

lemma split_step_no_space:
  assumes "\<forall>c \<in> set xs. plain c" and "xs \<noteq> []" and "zs \<noteq> []"
    and "mb - int (utf8_len (part_prefix pn est)) = int (length xs)"
  shows "split_step mb est (xs @ zs, pn, ps) = Inl (lstrip zs, pn + 1, ps @ [part_prefix pn est @ xs])"
proof -
  let ?a = "mb - int (utf8_len (part_prefix pn est))"
  from assms(1) have c: "\<forall>c \<in> set xs. plain c \<or> c = 32" by blast
  from assms(1) plain_not_space have s: "32 \<notin> set xs" by blast
  from assms(3) have "0 < length zs" by simp
  with utf8_len_ge_length [of zs] have "0 < utf8_len zs" by linarith
  then have big: "\<not> int (utf8_len (xs @ zs)) \<le> ?a"
    by (simp add: assms(4) plain_chunk_size [OF c])
  have f: "find_byte_safe_split (xs @ zs) ?a = length xs"
    unfolding assms(4) by (rule find_byte_safe_split_ascii [OF c assms(3)])
  have sp: "rfind xs (cps '' '') = -1" using rfind_absent [OF s, of "[]"] by (simp add: cps_def)
  have h: "\<not> int (length xs) div 2 < - 1" by linarith
  have l: "logical_split (xs @ zs) (length xs) = length xs"
    by (simp add: logical_split_def Let_def plain_chunk_no_punct [OF c] sp h del: first_punct.simps)
  from assms(1,2) have "\<not> is_space (last xs)" using plain_not_space [of "last xs"] by simp
  with assms(2) have r: "rstrip xs = xs" by (rule rstrip_plain)
  have "xs @ zs \<noteq> []" using assms(2) by simp
  from split_step_more [OF this big, of "length xs" ps] show ?thesis by (simp add: f l r)
qed

lemma split_step_at_space:
  assumes "\<forall>c \<in> set xs. plain c" and "\<forall>c \<in> set ys. plain c" and "xs \<noteq> []" and "zs \<noteq> []"
    and "mb - int (utf8_len (part_prefix pn est)) = int (length xs + 1 + length ys)"
    and "(length xs + 1 + length ys) div 2 < length xs"
  shows "split_step mb est (xs @ 32 # ys @ zs, pn, ps)
           = Inl (lstrip (ys @ zs), pn + 1, ps @ [part_prefix pn est @ xs])"
proof -
  let ?a = "mb - int (utf8_len (part_prefix pn est))"
  let ?chunk = "xs @ 32 # ys"
  from assms(1,2) have c: "\<forall>c \<in> set ?chunk. plain c \<or> c = 32" by auto
  from assms(2) plain_not_space have s: "32 \<notin> set ys" by blast
  have len: "length ?chunk = length xs + 1 + length ys" by simp
  have rem: "xs @ 32 # ys @ zs = ?chunk @ zs" by simp
  from assms(4) have "0 < length zs" by simp
  with utf8_len_ge_length [of zs] have "0 < utf8_len zs" by linarith
  moreover have "utf8_len (?chunk @ zs) = utf8_len ?chunk + utf8_len zs" by (rule utf8_len_append)
  ultimately have "int (length xs + 1 + length ys) < int (utf8_len (?chunk @ zs))"
    using plain_chunk_size [OF c] len by linarith
  then have big: "\<not> int (utf8_len (?chunk @ zs)) \<le> ?a"
    unfolding assms(5) by linarith
  have f: "find_byte_safe_split (?chunk @ zs) ?a = length ?chunk"
    unfolding assms(5) len [symmetric] by (rule find_byte_safe_split_ascii [OF c assms(4)])
  have sp: "rfind ?chunk (cps '' '') = int (length xs)"
    using rfind_last_char [OF s, of xs] by (simp add: cps_def)
  have t: "take (length ?chunk) (?chunk @ zs) = ?chunk" by simp
  have h1: "int (length ?chunk) div 2 < int (length xs)"
    unfolding len using assms(6) by linarith
  have h2: "\<not> int (length ?chunk) div 2 < - 1" by linarith
  have l: "logical_split (?chunk @ zs) (length ?chunk) = length xs + 1"
    unfolding logical_split_def Let_def t plain_chunk_no_punct [OF c] sp
    by (simp only: h1 h2 if_True if_False option.case)
  from assms(1,3) have "\<not> is_space (last xs)" using plain_not_space [of "last xs"] by simp
  with assms(3) have "rstrip xs = xs" by (rule rstrip_plain)
  then have r: "rstrip (take (length xs + 1) (?chunk @ zs)) = xs"
    using rstrip_space [of xs] by simp
  have d: "drop (length xs + 1) (?chunk @ zs) = ys @ zs" by simp
  have "?chunk @ zs \<noteq> []" by simp
  from split_step_more [OF this big, of "length xs + 1" ps] show ?thesis
    unfolding rem f l r d by simp
qed

lemma utf8_len_replicate [simp]: "utf8_len (replicate n c) = n * char_bytes c"
  by (induction n) simp_all

lemma encodable_append [simp]: "encodable (s @ t) = (encodable s \<and> encodable t)"
  by (simp add: encodable_def)

lemma encodable_Cons [simp]: "encodable (c # s) = (\<not> is_surrogate c \<and> encodable s)"
  by (simp add: encodable_def)

lemma encodable_replicate [simp]: "\<not> is_surrogate c \<Longrightarrow> encodable (replicate n c)"
  by (simp add: encodable_def list_all_iff)

lemma encodable_Nil [simp]: "encodable []"
  by (simp add: encodable_def)

lemma plain_letters [simp]: "plain 97" "plain 98" "plain 99"
  by (simp_all add: plain_def is_space_def)

lemma digits_small: "n < 10 \<Longrightarrow> digits n = [48 + n]"
  by (simp add: digits.simps)

lemma digits_two: "10 \<le> n \<Longrightarrow> n < 100 \<Longrightarrow> digits n = [48 + n div 10, 48 + n mod 10]"
  by (subst digits.simps) (simp add: digits_small)

lemma part_prefix_small:
  "0 \<le> k \<Longrightarrow> k < 10 \<Longrightarrow> 0 \<le> n \<Longrightarrow> n < 10 \<Longrightarrow>
     part_prefix k n = [91, 48 + nat k, 47, 48 + nat n, 93, 32]"
  by (simp add: part_prefix_def str_int_def digits_small)

lemma lstrip_replicate_plain:
  "0 < n \<Longrightarrow> \<not> is_space c \<Longrightarrow> lstrip (replicate n c @ s) = replicate n c @ s"
  by (cases n) (simp_all add: lstrip_def)

lemma replicate_join:
  "replicate i x @ replicate j x @ s = replicate (i + j) x @ s"
  by (simp add: replicate_add)

text \<open>
  The text of three words of 100 letters, for every budget from 107 to 205 bytes and every
  one-digit estimate: two splits at the spaces, then the last part.
\<close>

lemma three_words_prefix:
  assumes "0 \<le> est" and "est < 10" and "1 \<le> k" and "k \<le> 3"
  shows "mb - int (utf8_len (part_prefix k est)) = mb - 6"
proof -
  from assms have "nat k < 80" "nat est < 80" by linarith+
  with assms show ?thesis by (simp add: part_prefix_small char_bytes_def)
qed

lemma three_words_step1:
  assumes "107 \<le> mb" and "mb \<le> 205" and "0 \<le> est" and "est < 10"
  shows "split_step mb est (three_words, 1, [])
      = Inl (replicate 100 98 @ 32 # replicate 100 99, 2, [part_prefix 1 est @ replicate 100 97])"
proof -
  define j where "j = nat (mb - 107)"
  from assms have j: "j \<le> 98" "mb - 6 = int (100 + 1 + j)" by (simp_all add: j_def)
  have b: "replicate 100 98 = replicate j 98 @ replicate (100 - j) (98::nat)"
    using j(1) by (simp add: replicate_add [symmetric])
  have e: "three_words = replicate 100 97 @ 32 # replicate j 98 @ (replicate (100 - j) 98 @ 32 # replicate 100 99)"
    unfolding three_words_def by (subst b) simp
  have r: "lstrip (replicate j 98 @ (replicate (100 - j) 98 @ 32 # replicate 100 99))
      = replicate 100 98 @ 32 # replicate 100 99"
    using lstrip_replicate_plain [of 100 98 "32 # replicate 100 99"] b
    by (simp add: is_space_def)
  have "split_step mb est (replicate 100 97 @ 32 # replicate j 98 @ (replicate (100 - j) 98 @ 32 # replicate 100 99), 1, [])
      = Inl (lstrip (replicate j 98 @ (replicate (100 - j) 98 @ 32 # replicate 100 99)), 1 + 1,
             [] @ [part_prefix 1 est @ replicate 100 97])"
  proof (rule split_step_at_space)
    show "mb - int (utf8_len (part_prefix 1 est)) = int (length (replicate 100 (97::nat)) + 1 + length (replicate j (98::nat)))"
      using three_words_prefix [OF assms(3,4), of 1 mb] j(2) by simp
    show "(length (replicate 100 (97::nat)) + 1 + length (replicate j (98::nat))) div 2 < length (replicate 100 (97::nat))"
      using j(1) by simp
    show "replicate (100 - j) 98 @ 32 # replicate 100 99 \<noteq> ([]::nat list)" by simp
  qed simp_all
  then show ?thesis unfolding e r by simp
qed

lemma three_words_step2:
  assumes "107 \<le> mb" and "mb \<le> 205" and "0 \<le> est" and "est < 10"
  shows "split_step mb est (replicate 100 98 @ 32 # replicate 100 99, 2, ps)
      = Inl (replicate 100 99, 3, ps @ [part_prefix 2 est @ replicate 100 98])"
proof -
  define j where "j = nat (mb - 107)"
  from assms have j: "j \<le> 98" "mb - 6 = int (100 + 1 + j)" by (simp_all add: j_def)
  have b: "replicate 100 99 = replicate j 99 @ replicate (100 - j) (99::nat)"
    using j(1) by (simp add: replicate_add [symmetric])
  have e: "replicate 100 98 @ 32 # replicate 100 99
      = replicate 100 98 @ 32 # replicate j 99 @ replicate (100 - j) (99::nat)"
    by (subst b) simp
  have r: "lstrip (replicate j 99 @ replicate (100 - j) 99) = replicate 100 99"
    using lstrip_replicate_plain [of 100 99 "[]"] b by (simp add: is_space_def)
  have "split_step mb est (replicate 100 98 @ 32 # replicate j 99 @ replicate (100 - j) 99, 2, ps)
      = Inl (lstrip (replicate j 99 @ replicate (100 - j) 99), 2 + 1,
             ps @ [part_prefix 2 est @ replicate 100 98])"
  proof (rule split_step_at_space)
    show "mb - int (utf8_len (part_prefix 2 est)) = int (length (replicate 100 (98::nat)) + 1 + length (replicate j (99::nat)))"
      using three_words_prefix [OF assms(3,4), of 2 mb] j(2) by simp
    show "(length (replicate 100 (98::nat)) + 1 + length (replicate j (99::nat))) div 2 < length (replicate 100 (98::nat))"
      using j(1) by simp
    show "replicate (100 - j) 99 \<noteq> ([]::nat list)" using j(1) by simp
  qed simp_all
  then show ?thesis unfolding e r by simp
qed

lemma three_words_step3:
  assumes "107 \<le> mb" and "mb \<le> 205" and "0 \<le> est" and "est < 10"
  shows "split_step mb est (replicate 100 99, 3, ps)
      = Inr (ps @ [part_prefix 3 est @ replicate 100 99])"
proof (rule split_step_last)
  show "int (utf8_len (replicate 100 99)) \<le> mb - int (utf8_len (part_prefix 3 est))"
    using three_words_prefix [OF assms(3,4), of 3 mb] assms(1) by (simp add: char_bytes_def)
qed simp

lemma three_words_loop:
  assumes "107 \<le> mb" and "mb \<le> 205" and "0 \<le> est" and "est < 10"
  shows "split_loop mb est (three_words, 1, [])
     = Some [part_prefix 1 est @ replicate 100 97, part_prefix 2 est @ replicate 100 98,
             part_prefix 3 est @ replicate 100 99]"
  by (subst split_loop.simps, simp only: three_words_step1 [OF assms] sum.case)
     (subst split_loop.simps, simp only: three_words_step2 [OF assms] sum.case,
      subst split_loop.simps, simp only: three_words_step3 [OF assms] sum.case, simp)

lemma three_words_size: "encodable three_words" "utf8_len three_words = 302"
  by (simp_all add: three_words_def is_surrogate_def char_bytes_def)

lemma three_words_split:
  assumes "mb = 150 \<or> mb = 133"
  shows "split_message three_words (Some mb)
     = Some (Inr [part_prefix 1 3 @ replicate 100 97, part_prefix 2 3 @ replicate 100 98,
                  part_prefix 3 3 @ replicate 100 99])"
proof -
  from assms have est: "estimated_parts three_words mb = 3"
    by (auto simp: estimated_parts_def three_words_size)
  from assms have "107 \<le> mb" "mb \<le> 205" by auto
  from three_words_loop [OF this, of 3] assms show ?thesis
    by (auto simp: split_message_def three_words_size est)
qed

lemma part_bodies_aux:
  "map (\<lambda>(i, part). drop (length (part_prefix i t)) part)
       (zip [k..k + int (length bodies) - 1] (number_from t k bodies)) = bodies"
proof (induction bodies arbitrary: k)
  case Nil
  then show ?case by simp
next
  case (Cons b bodies)
  have u: "[k..k + int (length (b # bodies)) - 1] = k # [k + 1..(k + 1) + int (length bodies) - 1]"
    by (subst upto_rec1) (simp_all add: add.assoc add.commute)
  show ?case
    unfolding u using Cons.IH [of "k + 1"] by simp
qed

lemma part_bodies_number_from:
  "part_bodies (number_from (int (length bodies)) 1 bodies) = bodies"
  using part_bodies_aux [of "int (length bodies)" 1 bodies] by (simp add: part_bodies_def)

text \<open>
  C10. \<open>split_message\<close> returns (a list of parts, or an exception before its loop) whenever
  at every pass of its loop that finds text left, at least four bytes remain after the
  prefix of that pass: then the split index of every pass is at least 1, so every pass that
  goes on leaves strictly less text than it found.
\<close>

theorem split_message_terminates:
  assumes "budget_ok max_bytes (estimated_parts txt max_bytes) (txt, 1, [])"
  shows "(\<exists>result. split_message txt (Some max_bytes) = Some result)
     \<and> (\<forall>n remaining pn ps.
          state_at max_bytes (estimated_parts txt max_bytes) (txt, 1, []) n
            = Some (remaining, pn, ps) \<longrightarrow>
          remaining \<noteq> [] \<longrightarrow>
          1 \<le> logical_split remaining
                (find_byte_safe_split remaining
                   (max_bytes
                      - int (utf8_len (part_prefix pn (estimated_parts txt max_bytes))))))
     \<and> (\<forall>n remaining pn ps remaining' pn' ps'.
          state_at max_bytes (estimated_parts txt max_bytes) (txt, 1, []) n
            = Some (remaining, pn, ps) \<longrightarrow>
          state_at max_bytes (estimated_parts txt max_bytes) (txt, 1, []) (Suc n)
            = Some (remaining', pn', ps') \<longrightarrow>
          length remaining' < length remaining)"
proof (intro conjI)
  show "\<forall>n remaining pn ps.
          state_at max_bytes (estimated_parts txt max_bytes) (txt, 1, []) n
            = Some (remaining, pn, ps) \<longrightarrow>
          remaining \<noteq> [] \<longrightarrow>
          1 \<le> logical_split remaining
                (find_byte_safe_split remaining
                   (max_bytes
                      - int (utf8_len (part_prefix pn (estimated_parts txt max_bytes)))))"
  proof (intro allI impI)
    fix n remaining pn ps
    assume "state_at max_bytes (estimated_parts txt max_bytes) (txt, 1, []) n
        = Some (remaining, pn, ps)" and ne: "remaining \<noteq> []"
    with assms have "4 \<le> max_bytes
        - int (utf8_len (part_prefix pn (estimated_parts txt max_bytes)))"
      unfolding budget_ok_def by blast
    with ne have "1 \<le> find_byte_safe_split remaining
        (max_bytes - int (utf8_len (part_prefix pn (estimated_parts txt max_bytes))))"
      by (rule find_byte_safe_split_pos)
    then show "1 \<le> logical_split remaining
        (find_byte_safe_split remaining
           (max_bytes - int (utf8_len (part_prefix pn (estimated_parts txt max_bytes)))))"
      by (rule logical_split_pos)
  qed
next
  from split_loop_returns [OF assms] obtain parts where
    "split_loop max_bytes (estimated_parts txt max_bytes) (txt, 1, []) = Some parts" by blast
  then show "\<exists>result. split_message txt (Some max_bytes) = Some result"
    by (simp add: split_message_def Let_def)
next
  show "\<forall>n remaining pn ps remaining' pn' ps'.
          state_at max_bytes (estimated_parts txt max_bytes) (txt, 1, []) n
            = Some (remaining, pn, ps) \<longrightarrow>
          state_at max_bytes (estimated_parts txt max_bytes) (txt, 1, []) (Suc n)
            = Some (remaining', pn', ps') \<longrightarrow>
          length remaining' < length remaining"
    using state_at_shortens [OF assms] by blast
qed

text \<open>
  C6, for a text that does not fit. When \<open>split_message\<close> returns \<open>n\<close> parts for a text
  longer than \<open>max_bytes\<close>, the part at position \<open>i\<close> (counted from 1) is the prefix
  \<open>[i/n] \<close>, with the number \<open>n\<close> of parts really returned, followed by its body; this
  holds whether or not the estimate of the count was right.
\<close>

theorem part_numbers_consistent:
  assumes "split_message txt (Some max_bytes) = Some (Inr parts)"
    and "\<not> int (utf8_len txt) \<le> max_bytes"
  shows "\<forall>i < length parts.
           parts ! i = part_prefix (int i + 1) (int (length parts)) @ part_bodies parts ! i"
proof -
  from split_message_shape [OF assms] obtain bodies where
    p: "parts = number_from (int (length bodies)) 1 bodies" by blast
  then have l: "length parts = length bodies" by simp
  have b: "part_bodies parts = bodies" unfolding p by (rule part_bodies_number_from)
  show ?thesis
  proof (intro allI impI)
    fix i assume "i < length parts"
    then have "i < length bodies" by (simp add: l)
    from nth_number_from [OF this, of "int (length bodies)" 1]
    show "parts ! i = part_prefix (int i + 1) (int (length parts)) @ part_bodies parts ! i"
      unfolding b l by (simp add: p add.commute)
  qed
qed

text \<open>
  C2, up to the whitespace at the split points. For a text that does not fit, the text is
  the bodies of the returned parts in their order, each followed by a (possibly empty) run
  of whitespace: nothing but whitespace is dropped, nothing is duplicated or reordered.
\<close>

theorem bodies_rebuild_text_up_to_blanks:
  assumes "split_message txt (Some max_bytes) = Some (Inr parts)"
    and "\<not> int (utf8_len txt) \<le> max_bytes"
  shows "\<exists>gaps. length gaps = length parts \<and> list_all blank gaps
           \<and> txt = interleave (part_bodies parts) gaps"
proof -
  from split_message_shape [OF assms] obtain bodies gaps where
    p: "parts = number_from (int (length bodies)) 1 bodies"
    and g: "length gaps = length bodies" "list_all blank gaps" "txt = interleave bodies gaps"
    by blast
  have "part_bodies parts = bodies" unfolding p by (rule part_bodies_number_from)
  with p g show ?thesis by auto
qed

lemma three_words_bodies:
  "part_bodies [part_prefix 1 3 @ replicate 100 97, part_prefix 2 3 @ replicate 100 98,
                part_prefix 3 3 @ replicate 100 99]
     = [replicate 100 97, replicate 100 98, replicate 100 99]"
  using part_bodies_number_from [of "[replicate 100 97, replicate 100 98, replicate 100 99]"]
  by simp

lemma three_words_budget: "budget_ok 150 3 (three_words, 1, [])"
  unfolding budget_ok_def
proof (intro allI impI)
  fix n remaining pn ps
  assume s: "state_at 150 3 (three_words, 1, []) n = Some (remaining, pn, ps)"
  have b: "(107::int) \<le> 150" "(150::int) \<le> 205" "(0::int) \<le> 3" "(3::int) < 10" by simp_all
  note steps = three_words_step1 [OF b] three_words_step2 [OF b] three_words_step3 [OF b]
  have "pn = 1 \<or> pn = 2 \<or> pn = 3"
  proof (cases n)
    case 0
    with s show ?thesis by simp
  next
    case n1: (Suc n1)
    show ?thesis
    proof (cases n1)
      case 0
      with s n1 show ?thesis by (simp add: steps)
    next
      case n2: (Suc n2)
      show ?thesis
      proof (cases n2)
        case 0
        with s n1 n2 show ?thesis by (simp add: steps)
      next
        case (Suc n3)
        with s n1 n2 show ?thesis by (simp add: steps)
      qed
    qed
  qed
  then show "4 \<le> 150 - int (utf8_len (part_prefix pn 3))"
    using three_words_prefix [of 3 pn 150] by auto
qed

theorem split_message_terminates_witness:
  "budget_ok 150 (estimated_parts three_words 150) (three_words, 1, [])
   \<and> split_message three_words (Some 150)
       = Some (Inr [part_prefix 1 3 @ replicate 100 97, part_prefix 2 3 @ replicate 100 98,
                    part_prefix 3 3 @ replicate 100 99])"
proof -
  have est: "estimated_parts three_words 150 = 3"
    by (simp add: estimated_parts_def three_words_size)
  have b: "budget_ok 150 (estimated_parts three_words 150) (three_words, 1, [])"
    unfolding est by (rule three_words_budget)
  from split_message_terminates [OF b] b three_words_split [of 150] show ?thesis by simp
qed

text \<open>
  C6 as stated fails for a text that fits: the single part returned carries no prefix.
\<close>

theorem part_numbers_consistent_counterexample:
  "split_message (cps ''hello world'') (Some 150) = Some (Inr [cps ''hello world''])
   \<and> part_prefix 1 1 = cps ''[1/1] ''
   \<and> \<not> startswith ([cps ''hello world''] ! 0) (part_prefix 1 1)"
proof -
  have "split_message (cps ''hello world'') (Some 150) = Some (Inr [cps ''hello world''])"
    by (simp add: split_message_def encodable_def cps_def is_surrogate_def char_bytes_def)
  moreover have "part_prefix 1 1 = cps ''[1/1] ''"
    by (simp add: part_prefix_small) (simp add: cps_def)
  ultimately show ?thesis by (simp add: startswith_def) (simp add: cps_def)
qed

theorem part_numbers_consistent_witness:
  "split_message three_words (Some 150)
       = Some (Inr [part_prefix 1 3 @ replicate 100 97, part_prefix 2 3 @ replicate 100 98,
                    part_prefix 3 3 @ replicate 100 99])
   \<and> \<not> int (utf8_len three_words) \<le> 150
   \<and> [part_prefix 1 3 @ replicate 100 97, part_prefix 2 3 @ replicate 100 98,
        part_prefix 3 3 @ replicate 100 99] ! 2
       = part_prefix 3 3 @ part_bodies [part_prefix 1 3 @ replicate 100 97,
           part_prefix 2 3 @ replicate 100 98, part_prefix 3 3 @ replicate 100 99] ! 2"
proof -
  have s: "split_message three_words (Some 150)
       = Some (Inr [part_prefix 1 3 @ replicate 100 97, part_prefix 2 3 @ replicate 100 98,
                    part_prefix 3 3 @ replicate 100 99])"
    by (rule three_words_split) simp
  have n: "\<not> int (utf8_len three_words) \<le> 150" by (simp add: three_words_size)
  have "(2::nat) < length [part_prefix 1 3 @ replicate 100 97, part_prefix 2 3 @ replicate 100 98,
      part_prefix 3 3 @ replicate 100 99]" by simp
  with part_numbers_consistent [OF s n] have "[part_prefix 1 3 @ replicate 100 97,
      part_prefix 2 3 @ replicate 100 98, part_prefix 3 3 @ replicate 100 99] ! 2
    = part_prefix (int 2 + 1) (int (length [part_prefix 1 3 @ replicate 100 97,
        part_prefix 2 3 @ replicate 100 98, part_prefix 3 3 @ replicate 100 99]))
      @ part_bodies [part_prefix 1 3 @ replicate 100 97,
           part_prefix 2 3 @ replicate 100 98, part_prefix 3 3 @ replicate 100 99] ! 2"
    by blast
  then have "[part_prefix 1 3 @ replicate 100 97,
      part_prefix 2 3 @ replicate 100 98, part_prefix 3 3 @ replicate 100 99] ! 2
    = part_prefix 3 3 @ part_bodies [part_prefix 1 3 @ replicate 100 97,
           part_prefix 2 3 @ replicate 100 98, part_prefix 3 3 @ replicate 100 99] ! 2"
    by simp
  with s n show ?thesis by blast
qed

lemma strip_replicate_plain:
  "0 < n \<Longrightarrow> \<not> is_space c \<Longrightarrow> strip (replicate n c) = replicate n c"
proof -
  assume n: "0 < n" and c: "\<not> is_space c"
  from n have "replicate n c \<noteq> []" by simp
  moreover from n c have "\<not> is_space (last (replicate n c))" by simp
  ultimately have "rstrip (replicate n c) = replicate n c" by (rule rstrip_plain)
  moreover from lstrip_replicate_plain [OF n c, of "[]"] have "lstrip (replicate n c) = replicate n c"
    by simp
  ultimately show ?thesis by (simp add: strip_def)
qed

lemma three_words_trimmed:
  "map strip [replicate 100 97, replicate 100 98, replicate 100 99]
     = [replicate 100 97, replicate 100 98, replicate 100 99]"
  by (simp add: strip_replicate_plain is_space_def)

text \<open>
  C2 as stated fails: the bodies of the three parts of \<open>three_words\<close> (trimmed or not)
  hold 300 characters, the text holds 302; the two spaces at which it was split are gone.
\<close>

theorem bodies_rebuild_text_counterexample:
  "split_message three_words (Some 150)
       = Some (Inr [part_prefix 1 3 @ replicate 100 97, part_prefix 2 3 @ replicate 100 98,
                    part_prefix 3 3 @ replicate 100 99])
   \<and> part_bodies [part_prefix 1 3 @ replicate 100 97, part_prefix 2 3 @ replicate 100 98,
                   part_prefix 3 3 @ replicate 100 99]
       = [replicate 100 97, replicate 100 98, replicate 100 99]
   \<and> length three_words = 302
   \<and> map strip [replicate 100 97, replicate 100 98, replicate 100 99]
       = [replicate 100 97, replicate 100 98, replicate 100 99]
   \<and> length (concat [replicate 100 (97::nat), replicate 100 98, replicate 100 99]) = 300
   \<and> concat [replicate 100 97, replicate 100 98, replicate 100 99] \<noteq> three_words"
proof -
  have l: "length three_words = 302" by (simp add: three_words_def)
  have c: "length (concat [replicate 100 (97::nat), replicate 100 98, replicate 100 99]) = 300"
    by simp
  have d: "concat [replicate 100 97, replicate 100 98, replicate 100 99] \<noteq> three_words"
  proof
    assume "concat [replicate 100 97, replicate 100 98, replicate 100 99] = three_words"
    then have "length (concat [replicate 100 (97::nat), replicate 100 98, replicate 100 99])
        = length three_words" by (rule arg_cong)
    with l c show False by simp
  qed
  have s: "split_message three_words (Some 150)
       = Some (Inr [part_prefix 1 3 @ replicate 100 97, part_prefix 2 3 @ replicate 100 98,
                    part_prefix 3 3 @ replicate 100 99])"
    by (rule three_words_split) simp
  from s three_words_bodies l three_words_trimmed c d show ?thesis by (intro conjI)
qed

theorem bodies_rebuild_text_up_to_blanks_witness:
  "split_message three_words (Some 150)
       = Some (Inr [part_prefix 1 3 @ replicate 100 97, part_prefix 2 3 @ replicate 100 98,
                    part_prefix 3 3 @ replicate 100 99])
   \<and> \<not> int (utf8_len three_words) \<le> 150
   \<and> (\<exists>gaps. length gaps = length [replicate 100 (97::nat), replicate 100 98, replicate 100 99]
         \<and> list_all blank gaps
         \<and> three_words = interleave [replicate 100 97, replicate 100 98, replicate 100 99] gaps)"
proof -
  have s: "split_message three_words (Some 150)
       = Some (Inr [part_prefix 1 3 @ replicate 100 97, part_prefix 2 3 @ replicate 100 98,
                    part_prefix 3 3 @ replicate 100 99])"
    by (rule three_words_split) simp
  have n: "\<not> int (utf8_len three_words) \<le> 150" by (simp add: three_words_size)
  from bodies_rebuild_text_up_to_blanks [OF s n]
  have "\<exists>gaps. length gaps = length [replicate 100 (97::nat), replicate 100 98, replicate 100 99]
         \<and> list_all blank gaps
         \<and> three_words = interleave [replicate 100 97, replicate 100 98, replicate 100 99] gaps"
    unfolding three_words_bodies by simp
  with s n show ?thesis by (intro conjI)
qed

lemma tokens_Suc: "tokens (Suc n) = replicate 73 98 @ 32 # tokens n"
  by (simp add: tokens_def word_token_def)

lemma tokens_step:
  assumes "mb - int (utf8_len (part_prefix pn est)) = int (74 + j)" and "j \<le> 70"
  shows "split_step mb est (tokens (n + 2), pn, ps)
      = Inl (tokens (n + 1), pn + 1, ps @ [part_prefix pn est @ replicate 73 98])"
proof -
  have b: "replicate 73 98 = replicate j 98 @ replicate (73 - j) (98::nat)"
    using assms(2) by (simp add: replicate_add [symmetric])
  have e: "tokens (n + 2) = replicate 73 98 @ 32 # replicate j 98 @ (replicate (73 - j) 98 @ 32 # tokens n)"
    using b by (simp add: tokens_Suc)
  have r: "lstrip (replicate j 98 @ (replicate (73 - j) 98 @ 32 # tokens n)) = tokens (n + 1)"
    using lstrip_replicate_plain [of 73 98 "32 # tokens n"] b
    by (simp add: is_space_def tokens_Suc)
  have "split_step mb est (replicate 73 98 @ 32 # replicate j 98 @ (replicate (73 - j) 98 @ 32 # tokens n), pn, ps)
      = Inl (lstrip (replicate j 98 @ (replicate (73 - j) 98 @ 32 # tokens n)), pn + 1,
             ps @ [part_prefix pn est @ replicate 73 98])"
  proof (rule split_step_at_space)
    show "mb - int (utf8_len (part_prefix pn est))
        = int (length (replicate 73 (98::nat)) + 1 + length (replicate j (98::nat)))"
      using assms(1) by simp
    show "(length (replicate 73 (98::nat)) + 1 + length (replicate j (98::nat))) div 2
        < length (replicate 73 (98::nat))"
      using assms(2) by simp
    show "replicate (73 - j) 98 @ 32 # tokens n \<noteq> ([]::nat list)" by simp
  qed simp_all
  then show ?thesis unfolding e r .
qed

lemma one_digit_prefix:
  assumes "1 \<le> pn" and "pn < 10"
  shows "150 - int (utf8_len (part_prefix pn 7)) = int (74 + 70)"
proof -
  from assms have "nat pn < 80" by linarith
  with assms show ?thesis by (simp add: part_prefix_small char_bytes_def)
qed

lemma two_digit_prefix:
  assumes "10 \<le> pn" and "pn < 100"
  shows "utf8_len (part_prefix pn 7) = 7"
proof -
  from assms have "nat pn div 10 < 80" "nat pn mod 10 < 80" by linarith+
  with assms show ?thesis
    by (simp add: part_prefix_def str_int_def digits_small digits_two char_bytes_def)
qed

text \<open>The passes for the parts 2 to 9, each one word long.\<close>

lemma tokens_run:
  "k \<le> 8 \<Longrightarrow>
     split_loop 150 7 (tokens (k + 2), 10 - int k, ps)
       = split_loop 150 7 (tokens 2, 10,
           ps @ map (\<lambda>i. part_prefix i 7 @ replicate 73 98) [10 - int k..9])"
proof (induction k arbitrary: ps)
  case 0
  have "[10 - int 0..9] = []" by simp
  moreover have "0 + 2 = (2::nat)" "10 - int 0 = 10" by simp_all
  ultimately show ?case by (simp only: map_is_Nil_conv append_Nil2 list.map)
next
  case (Suc k)
  from Suc.prems have p: "1 \<le> 10 - int (Suc k)" "10 - int (Suc k) < 10" by simp_all
  have n: "Suc k + 1 = k + 2" "10 - int (Suc k) + 1 = 10 - int k" by simp_all
  have step: "split_step 150 7 (tokens (Suc k + 2), 10 - int (Suc k), ps)
      = Inl (tokens (Suc k + 1), 10 - int (Suc k) + 1,
             ps @ [part_prefix (10 - int (Suc k)) 7 @ replicate 73 98])"
    by (rule tokens_step [OF one_digit_prefix [OF p]]) simp
  have "split_loop 150 7 (tokens (Suc k + 2), 10 - int (Suc k), ps)
      = split_loop 150 7 (tokens (k + 2), 10 - int k,
          ps @ [part_prefix (10 - int (Suc k)) 7 @ replicate 73 98])"
    by (subst split_loop.simps) (simp only: step sum.case n)
  also have "\<dots> = split_loop 150 7 (tokens 2, 10,
      (ps @ [part_prefix (10 - int (Suc k)) 7 @ replicate 73 98])
        @ map (\<lambda>i. part_prefix i 7 @ replicate 73 98) [10 - int k..9])"
    using Suc.prems by (intro Suc.IH) simp
  also have "(ps @ [part_prefix (10 - int (Suc k)) 7 @ replicate 73 98])
        @ map (\<lambda>i. part_prefix i 7 @ replicate 73 98) [10 - int k..9]
      = ps @ map (\<lambda>i. part_prefix i 7 @ replicate 73 98) [10 - int (Suc k)..9]"
  proof -
    from Suc.prems have "10 - int (Suc k) \<le> 9" by simp
    then have "[10 - int (Suc k)..9] = (10 - int (Suc k)) # [10 - int (Suc k) + 1..9]"
      by (rule upto_rec1)
    then show ?thesis by (simp only: n list.map append_assoc append_Cons append_Nil)
  qed
  finally show ?case .
qed

lemma tokens_end:
  "split_loop 150 7 (tokens 2, 10, ps)
     = Some (ps @ [part_prefix 10 7 @ replicate 73 98, part_prefix 11 7 @ replicate 73 98 @ [32]])"
proof -
  have a: "150 - int (utf8_len (part_prefix 10 7)) = int (74 + 69)"
    by (simp add: two_digit_prefix)
  have "split_step 150 7 (tokens (0 + 2), 10, ps)
      = Inl (tokens (0 + 1), 10 + 1, ps @ [part_prefix 10 7 @ replicate 73 98])"
    by (rule tokens_step [OF a]) simp
  moreover have "tokens (0 + 1) = replicate 73 98 @ [32]" "0 + 2 = (2::nat)" "(10::int) + 1 = 11"
    by (simp_all add: tokens_def word_token_def)
  ultimately have s1: "split_step 150 7 (tokens 2, 10, ps)
      = Inl (replicate 73 98 @ [32], 11, ps @ [part_prefix 10 7 @ replicate 73 98])"
    by (simp only:)
  have s2: "split_step 150 7 (replicate 73 98 @ [32], 11, ps @ [part_prefix 10 7 @ replicate 73 98])
      = Inr ((ps @ [part_prefix 10 7 @ replicate 73 98])
               @ [part_prefix 11 7 @ replicate 73 98 @ [32]])"
    by (rule split_step_last) (simp_all add: two_digit_prefix char_bytes_def)
  show ?thesis
    by (subst split_loop.simps, simp only: s1 sum.case)
       (subst split_loop.simps, simp only: s2 sum.case append_assoc append_Cons append_Nil)
qed

lemma long_words_first:
  "split_step 150 7 (long_words, 1, []) = Inl (tokens 10, 2, [part_prefix 1 7 @ replicate 144 97])"
proof -
  have t: "tokens 10 = replicate 73 98 @ 32 # tokens 9"
    using tokens_Suc [of 9] by simp
  have r: "lstrip (tokens 10) = tokens 10"
    unfolding t using lstrip_replicate_plain [of 73 98 "32 # tokens 9"] by (simp add: is_space_def)
  have "split_step 150 7 (replicate 144 97 @ tokens 10, 1, [])
      = Inl (lstrip (tokens 10), 1 + 1, [] @ [part_prefix 1 7 @ replicate 144 97])"
  proof (rule split_step_no_space)
    show "150 - int (utf8_len (part_prefix 1 7)) = int (length (replicate 144 (97::nat)))"
      using one_digit_prefix [of 1] by simp
    show "tokens 10 \<noteq> []" unfolding t by simp
  qed simp_all
  moreover have "(1::int) + 1 = 2" by simp
  ultimately show ?thesis by (simp only: long_words_def r append_Nil)
qed

lemma number_from_replicate:
  "number_from t k (replicate n b) = map (\<lambda>i. part_prefix i t @ b) [k..k + int n - 1]"
proof (induction n arbitrary: k)
  case 0
  then show ?case by simp
next
  case (Suc n)
  have "[k..k + int (Suc n) - 1] = k # [k + 1..k + 1 + int n - 1]"
    by (subst upto_rec1) (simp_all add: algebra_simps)
  with Suc [of "k + 1"] show ?case by simp
qed

lemma long_words_loop:
  "split_loop 150 7 (long_words, 1, []) = Some (number_from 7 1 long_words_bodies)"
proof -
  have n: "8 + 2 = (10::nat)" "10 - int 8 = 2" by simp_all
  have "split_loop 150 7 (long_words, 1, [])
      = split_loop 150 7 (tokens (8 + 2), 10 - int 8, [part_prefix 1 7 @ replicate 144 97])"
    by (subst split_loop.simps) (simp only: long_words_first sum.case n)
  also have "\<dots> = split_loop 150 7 (tokens 2, 10,
      [part_prefix 1 7 @ replicate 144 97]
        @ map (\<lambda>i. part_prefix i 7 @ replicate 73 98) [10 - int 8..9])"
    by (rule tokens_run) simp
  also have "\<dots> = Some (([part_prefix 1 7 @ replicate 144 97]
        @ map (\<lambda>i. part_prefix i 7 @ replicate 73 98) [10 - int 8..9])
        @ [part_prefix 10 7 @ replicate 73 98, part_prefix 11 7 @ replicate 73 98 @ [32]])"
    by (rule tokens_end)
  also have "([part_prefix 1 7 @ replicate 144 97]
        @ map (\<lambda>i. part_prefix i 7 @ replicate 73 98) [10 - int 8..9])
        @ [part_prefix 10 7 @ replicate 73 98, part_prefix 11 7 @ replicate 73 98 @ [32]]
      = number_from 7 1 long_words_bodies"
  proof -
    have "[2..10] = [2..10 - 1] @ [10::int]" by (rule upto_rec2) simp
    then have u: "[2..10] = [2..9] @ [10::int]" by simp
    have "number_from 7 1 long_words_bodies
        = (part_prefix 1 7 @ replicate 144 97)
            # number_from 7 2 (replicate 9 (replicate 73 98))
            @ number_from 7 (2 + int (length (replicate 9 (replicate 73 (98::nat))))) [replicate 73 98 @ [32]]"
      unfolding long_words_bodies_def by (simp add: number_from_append)
    also have "number_from 7 2 (replicate 9 (replicate 73 98))
        = map (\<lambda>i. part_prefix i 7 @ replicate 73 98) [2..10]"
      using number_from_replicate [of 7 2 9 "replicate 73 98"] by simp
    finally show ?thesis unfolding u n by simp
  qed
  finally show ?thesis .
qed

text \<open>
  C1, at a failing input. For \<open>long_words\<close> (884 bytes) and a budget of 150 bytes the
  estimate is 7 parts, the loop builds 11, and the first part built is \<open>[1/7] \<close> with 144
  letters: exactly 150 bytes. The final pass renumbers it to \<open>[1/11] \<close> with the same 144
  letters: 151 bytes, one more than the budget.
\<close>

theorem renumbered_part_exceeds_budget:
  "split_message long_words (Some 150) = Some (Inr (number_from 11 1 long_words_bodies))
   \<and> number_from 11 1 long_words_bodies ! 0 = cps ''[1/11] '' @ replicate 144 97
   \<and> utf8_len (number_from 11 1 long_words_bodies ! 0) = 151
   \<and> utf8_len (number_from 7 1 long_words_bodies ! 0) = 150"
proof -
  have e: "encodable long_words"
    by (simp add: long_words_def tokens_def word_token_def encodable_def list_all_iff is_surrogate_def)
  have "utf8_len (tokens n) = 74 * n" for n
    by (induction n) (simp_all add: tokens_Suc char_bytes_def, simp add: tokens_def)
  then have u: "utf8_len long_words = 884" by (simp add: long_words_def char_bytes_def)
  have est: "estimated_parts long_words 150 = 7" by (simp add: estimated_parts_def u)
  have n: "length long_words_bodies = 11" by (simp add: long_words_bodies_def)
  have "split_message long_words (Some 150)
      = Some (Inr (renumber (number_from 7 1 long_words_bodies)))"
    by (simp add: split_message_def e u est long_words_loop n)
  then have s: "split_message long_words (Some 150) = Some (Inr (number_from 11 1 long_words_bodies))"
    using renumber_number_from [of 7 long_words_bodies] by (simp add: n)
  have p: "part_prefix 1 11 = cps ''[1/11] ''"
    by (simp add: part_prefix_def str_int_def digits_small digits_two) (simp add: cps_def)
  have h: "number_from 11 1 long_words_bodies ! 0 = cps ''[1/11] '' @ replicate 144 97"
    by (simp add: long_words_bodies_def p del: cps_simps)
  have l: "utf8_len (cps ''[1/11] '' @ replicate 144 97) = 151"
    by (simp add: cps_def char_bytes_def)
  have l7: "utf8_len (number_from 7 1 long_words_bodies ! 0) = 150"
    by (simp add: long_words_bodies_def part_prefix_small char_bytes_def)
  from s h l l7 show ?thesis by simp
qed

subsection \<open>The parts and the budget\<close>

lemma rfind_bound:
  assumes "0 \<le> rfind s sub"
  shows "nat (rfind s sub) + length sub \<le> length s"
proof (cases "filter (occurs_at s sub) (rev [0..<length s + 1 - length sub])")
  case Nil
  with assms show ?thesis by (simp add: rfind_def)
next
  case (Cons i rest)
  then have "i \<in> set (filter (occurs_at s sub) (rev [0..<length s + 1 - length sub]))" by simp
  then have "i < length s + 1 - length sub" by simp
  moreover from Cons have "rfind s sub = int i" by (simp add: rfind_def)
  ultimately show ?thesis by simp
qed

lemma first_punct_bound: "first_punct chunk ps = Some i \<Longrightarrow> i \<le> length chunk"
proof (induction ps)
  case Nil
  then show ?case by simp
next
  case (Cons p ps)
  show ?case
  proof (cases "rfind chunk p > int (length chunk) div 2")
    case True
    then have "0 \<le> rfind chunk p" by linarith
    from rfind_bound [OF this] True Cons.prems show ?thesis
      by (simp add: Let_def nat_add_distrib)
  next
    case False
    with Cons show ?thesis by (simp add: Let_def)
  qed
qed

lemma logical_split_le:
  assumes "k \<le> length remaining"
  shows "logical_split remaining k \<le> k"
proof -
  define chunk where "chunk = take k remaining"
  define half where "half = int (length chunk) div 2"
  from assms have len: "length chunk = k" by (simp add: chunk_def)
  have h: "nat (rfind chunk [c] + 1) \<le> k" if "half < rfind chunk [c]" for c
  proof -
    from that have "0 \<le> rfind chunk [c]" unfolding half_def by linarith
    from rfind_bound [OF this] show ?thesis unfolding len by (simp add: nat_add_distrib)
  qed
  have c1: "cps [CHR 0x0A] = [10]" "cps '' '' = [32]" by (simp_all add: cps_def)
  have unfold: "logical_split remaining k =
     (if rfind chunk [10] > half then nat (rfind chunk [10] + 1)
      else
        (case first_punct chunk [cps ''. '', cps ''! '', cps ''? ''] of
           Some i \<Rightarrow> i
         | None \<Rightarrow>
             (case first_punct chunk [cps '', '', cps ''; ''] of
                Some i \<Rightarrow> i
              | None \<Rightarrow> if rfind chunk [32] > half then nat (rfind chunk [32] + 1) else k)))"
    unfolding logical_split_def Let_def chunk_def half_def c1 ..
  show ?thesis
  proof (cases "rfind chunk [10] > half")
    case True
    with h [of 10] show ?thesis unfolding unfold by simp
  next
    case nl: False
    show ?thesis
    proof (cases "first_punct chunk [cps ''. '', cps ''! '', cps ''? '']")
      case (Some i)
      from first_punct_bound [OF Some] nl Some show ?thesis
        unfolding unfold len by (simp del: first_punct.simps)
    next
      case p1: None
      show ?thesis
      proof (cases "first_punct chunk [cps '', '', cps ''; '']")
        case (Some i)
        from first_punct_bound [OF Some] nl p1 Some show ?thesis
          unfolding unfold len by (simp del: first_punct.simps)
      next
        case p2: None
        show ?thesis
        proof (cases "rfind chunk [32] > half")
          case True
          with nl p1 p2 h [of 32] show ?thesis
            unfolding unfold by (simp del: first_punct.simps)
        next
          case False
          with nl p1 p2 show ?thesis
            unfolding unfold by (simp del: first_punct.simps)
        qed
      qed
    qed
  qed
qed

lemma utf8_len_rstrip_le: "utf8_len (rstrip s) \<le> utf8_len s"
proof -
  from rstrip_decomp [of s] obtain ws where "s = rstrip s @ ws" by blast
  then have "utf8_len s = utf8_len (rstrip s) + utf8_len ws" by (metis utf8_len_append)
  then show ?thesis by simp
qed

text \<open>A part built by a pass fits when the budget left after the prefix is not negative.\<close>

lemma built_part_fits:
  assumes "0 \<le> mb - int (utf8_len (part_prefix pn est))"
  shows "int (utf8_len (part_prefix pn est
           @ rstrip (take (logical_split remaining
               (find_byte_safe_split remaining (mb - int (utf8_len (part_prefix pn est)))))
             remaining))) \<le> mb"
proof -
  let ?a = "mb - int (utf8_len (part_prefix pn est))"
  let ?f = "find_byte_safe_split remaining ?a"
  let ?k = "logical_split remaining ?f"
  have "?k \<le> ?f" by (rule logical_split_le) (rule find_byte_safe_split_le)
  then have "utf8_len (take ?k remaining) \<le> utf8_len (take ?f remaining)"
    by (rule utf8_len_take_mono)
  moreover have "utf8_len (rstrip (take ?k remaining)) \<le> utf8_len (take ?k remaining)"
    by (rule utf8_len_rstrip_le)
  moreover have "int (utf8_len (take ?f remaining)) \<le> ?a"
    using assms by (rule find_byte_safe_split_fits)
  ultimately show ?thesis by simp
qed

lemma split_loop_within:
  assumes "split_loop mb est st = Some parts"
  shows "budget_ok mb est st \<longrightarrow> all_fit mb (snd (snd st)) \<longrightarrow> all_fit mb parts"
proof (rule split_loop.raw_induct [where P = "\<lambda>mb est st parts.
    budget_ok mb est st \<longrightarrow> all_fit mb (snd (snd st)) \<longrightarrow> all_fit mb parts", OF _ assms])
  fix loop mb est st parts
  assume IH: "\<And>mb est st parts. loop mb est st = Some parts \<Longrightarrow>
      budget_ok mb est st \<longrightarrow> all_fit mb (snd (snd st)) \<longrightarrow> all_fit mb parts"
    and eq: "(case split_step mb est st of Inl st' \<Rightarrow> loop mb est st' | Inr parts \<Rightarrow> Some parts)
               = Some parts"
  obtain remaining pn ps where st: "st = (remaining, pn, ps)" by (cases st)
  show "budget_ok mb est st \<longrightarrow> all_fit mb (snd (snd st)) \<longrightarrow> all_fit mb parts"
  proof (intro impI)
    assume b: "budget_ok mb est st" and w: "all_fit mb (snd (snd st))"
    show "all_fit mb parts"
    proof (cases rule: split_step_cases [of remaining mb est pn ps])
      case empty
      with eq st w show ?thesis by simp
    next
      case last
      with eq st have "parts = ps @ [part_prefix pn est @ remaining]" by simp
      with last(2) w st show ?thesis by (simp add: all_fit_def)
    next
      case (more k)
      let ?st' = "(lstrip (drop k remaining), pn + 1, ps @ [part_prefix pn est @ rstrip (take k remaining)])"
      from more(4) eq st have l: "loop mb est ?st' = Some parts" by simp
      from more(4) st have s: "split_step mb est st = Inl ?st'" by simp
      from b more(1) have "4 \<le> mb - int (utf8_len (part_prefix pn est))"
        unfolding budget_ok_def st using state_at.simps(1) by blast
      then have "0 \<le> mb - int (utf8_len (part_prefix pn est))" by linarith
      from built_part_fits [OF this, of remaining] w st
      have "all_fit mb (snd (snd ?st'))" unfolding more(3) by (simp add: all_fit_def)
      with IH [OF l] budget_ok_step [OF b s] show ?thesis by blast
    qed
  qed
qed

lemma str_int_ascii: "utf8_len (str_int i) = length (str_int i)"
proof (rule utf8_len_ascii, rule ballI)
  fix c assume "c \<in> set (str_int i)"
  then have "c = 45 \<or> c \<in> set (digits (nat (- i))) \<or> c \<in> set (digits (nat i))"
    by (auto simp: str_int_def split: if_splits)
  moreover have "c < 128" if "c \<in> set (digits n)" for n
    using digits_chars [OF that] by linarith
  ultimately show "c < 128" by auto
qed

lemma utf8_len_part_prefix:
  "utf8_len (part_prefix k n) = 4 + length (str_int k) + length (str_int n)"
  by (simp add: part_prefix_def str_int_ascii char_bytes_def)

lemma number_from_within:
  assumes "length (str_int t) \<le> length (str_int e)"
  shows "all_fit mb (number_from e k bodies) \<Longrightarrow> all_fit mb (number_from t k bodies)"
proof (induction bodies arbitrary: k)
  case Nil
  then show ?case by (simp add: all_fit_def)
next
  case (Cons b bodies)
  from Cons.prems have "all_fit mb (number_from e (k + 1) bodies)" by (simp add: all_fit_def)
  from Cons.IH [OF this] Cons.prems assms show ?case
    by (simp add: all_fit_def utf8_len_part_prefix)
qed

text \<open>
  Where C1 does hold: under the budget condition of C10, every returned part is at most
  \<open>max_bytes\<close> bytes long whenever the number of parts returned is written with no more
  digits than the estimate (in particular whenever the estimate was right, and always for
  the parts as the loop builds them).
\<close>

theorem parts_fit_when_count_no_longer:
  assumes "budget_ok max_bytes (estimated_parts txt max_bytes) (txt, 1, [])"
    and "split_message txt (Some max_bytes) = Some (Inr parts)"
    and "length (str_int (int (length parts))) \<le> length (str_int (estimated_parts txt max_bytes))"
  shows "\<forall>p \<in> set parts. int (utf8_len p) \<le> max_bytes"
proof (cases "int (utf8_len txt) \<le> max_bytes")
  case True
  with assms(2) have "parts = [txt]" by (simp add: split_message_def split: if_splits)
  with True show ?thesis by simp
next
  case False
  let ?est = "estimated_parts txt max_bytes"
  from assms(2) False obtain parts0 where
    l: "split_loop max_bytes ?est (txt, 1, []) = Some parts0"
    and f: "parts = (if int (length parts0) \<noteq> ?est then renumber parts0 else parts0)"
    by (auto simp: split_message_def Let_def split: if_splits option.splits)
  from split_loop_within [OF l] assms(1) have w0: "all_fit max_bytes parts0"
    by (simp add: all_fit_def)
  from split_loop_shape [OF l] obtain bodies where p: "parts0 = number_from ?est 1 bodies"
    unfolding loop_shape_def by auto
  have "all_fit max_bytes parts"
  proof (cases "int (length parts0) \<noteq> ?est")
    case True
    with f p have e: "parts = number_from (int (length bodies)) 1 bodies"
      by (simp add: renumber_number_from)
    then have "length parts = length bodies" by simp
    with assms(3) have "length (str_int (int (length bodies))) \<le> length (str_int ?est)" by simp
    from number_from_within [OF this] w0 show ?thesis unfolding e p by blast
  next
    case False
    with f w0 show ?thesis by simp
  qed
  then show ?thesis by (simp add: all_fit_def list_all_iff)
qed

theorem parts_fit_when_count_no_longer_witness:
  "budget_ok 150 (estimated_parts three_words 150) (three_words, 1, [])
   \<and> split_message three_words (Some 150)
       = Some (Inr [part_prefix 1 3 @ replicate 100 97, part_prefix 2 3 @ replicate 100 98,
                    part_prefix 3 3 @ replicate 100 99])
   \<and> length (str_int (int (length [part_prefix 1 3 @ replicate 100 97,
        part_prefix 2 3 @ replicate 100 98, part_prefix 3 3 @ replicate 100 99])))
       \<le> length (str_int (estimated_parts three_words 150))
   \<and> int (utf8_len (part_prefix 1 3 @ replicate 100 97)) \<le> 150"
proof -
  have est: "estimated_parts three_words 150 = 3"
    by (simp add: estimated_parts_def three_words_size)
  have b: "budget_ok 150 (estimated_parts three_words 150) (three_words, 1, [])"
    unfolding est by (rule three_words_budget)
  have s: "split_message three_words (Some 150)
       = Some (Inr [part_prefix 1 3 @ replicate 100 97, part_prefix 2 3 @ replicate 100 98,
                    part_prefix 3 3 @ replicate 100 99])"
    by (rule three_words_split) simp
  have d: "length (str_int (int (length [part_prefix 1 3 @ replicate 100 97,
        part_prefix 2 3 @ replicate 100 98, part_prefix 3 3 @ replicate 100 99])))
       \<le> length (str_int (estimated_parts three_words 150))"
    by (simp add: est)
  from parts_fit_when_count_no_longer [OF b s d]
  have "int (utf8_len (part_prefix 1 3 @ replicate 100 97)) \<le> 150" by simp
  with b s d show ?thesis by (intro conjI)
qed

text \<open>
  \<open>_find_byte_safe_split\<close> returns the largest character index whose prefix of the text
  takes at most \<open>max_bytes\<close> bytes, for a budget that is not negative.
\<close>

theorem find_byte_safe_split_largest:
  assumes "0 \<le> max_bytes"
  shows "find_byte_safe_split t max_bytes \<le> length t
     \<and> int (utf8_len (take (find_byte_safe_split t max_bytes) t)) \<le> max_bytes
     \<and> (\<forall>k. k \<le> length t \<longrightarrow> int (utf8_len (take k t)) \<le> max_bytes \<longrightarrow>
           k \<le> find_byte_safe_split t max_bytes)"
  using find_byte_safe_split_le [of t max_bytes] find_byte_safe_split_fits [OF assms, of t]
    find_byte_safe_split_maximal [of _ t max_bytes]
  by blast

theorem find_byte_safe_split_largest_witness:
  "(0::int) \<le> 5
   \<and> find_byte_safe_split [104, 233, 8364, 128512] 5 = 2
   \<and> int (utf8_len (take (find_byte_safe_split [104, 233, 8364, 128512] 5)
                         [104, 233, 8364, 128512])) \<le> 5
   \<and> utf8_len (take 3 [104, 233, 8364, 128512]) = 6"
proof -
  have z: "(0::int) \<le> 5" by simp
  have u: "utf8_len (take 3 [104, 233, 8364, 128512]) = 6" by (simp add: char_bytes_def)
  have "int (utf8_len (take 2 [104, 233, 8364, 128512])) \<le> 5" by (simp add: char_bytes_def)
  with find_byte_safe_split_largest [OF z, of "[104, 233, 8364, 128512]"]
  have ge: "2 \<le> find_byte_safe_split [104, 233, 8364, 128512] 5"
    and f: "int (utf8_len (take (find_byte_safe_split [104, 233, 8364, 128512] 5)
                         [104, 233, 8364, 128512])) \<le> 5"
    by simp_all
  have "find_byte_safe_split [104, 233, 8364, 128512] 5 < 3"
  proof (rule ccontr)
    assume "\<not> find_byte_safe_split [104, 233, 8364, 128512] 5 < 3"
    then have "utf8_len (take 3 [104, 233, 8364, 128512])
        \<le> utf8_len (take (find_byte_safe_split [104, 233, 8364, 128512] 5) [104, 233, 8364, 128512])"
      by (intro utf8_len_take_mono) simp
    with f u show False by linarith
  qed
  with ge have "find_byte_safe_split [104, 233, 8364, 128512] 5 = 2" by linarith
  with z f u show ?thesis by (intro conjI)
qed

text \<open>
  The scenario of the specification: 140 letters \<open>A\<close> and 40 letters \<open>B\<close> at 150 bytes give
  two parts, numbered \<open>[1/2] \<close> and \<open>[2/2] \<close>, of 150 and of 42 bytes.
\<close>

theorem scenario_two_parts:
  "split_message (replicate 140 65 @ replicate 40 66) (Some 150)
     = Some (Inr [cps ''[1/2] '' @ replicate 140 65 @ replicate 4 66,
                  cps ''[2/2] '' @ replicate 36 66])
   \<and> utf8_len (cps ''[1/2] '' @ replicate 140 65 @ replicate 4 66) = 150
   \<and> utf8_len (cps ''[2/2] '' @ replicate 36 66) = 42"
proof -
  let ?txt = "replicate 140 65 @ replicate 40 (66::nat)"
  have pl: "plain 65" "plain 66" by (simp_all add: plain_def is_space_def)
  have p1: "part_prefix 1 2 = cps ''[1/2] ''" by (simp add: part_prefix_small) (simp add: cps_def)
  have p2: "part_prefix 2 2 = cps ''[2/2] ''" by (simp add: part_prefix_small) (simp add: cps_def)
  have l: "utf8_len (cps ''[1/2] '') = 6" "utf8_len (cps ''[2/2] '') = 6"
    by (simp_all add: cps_def char_bytes_def)
  have e: "?txt = (replicate 140 65 @ replicate 4 66) @ replicate 36 66"
    by (simp add: replicate_add [symmetric])
  have r: "lstrip (replicate 36 66) = replicate 36 66"
    using lstrip_replicate_plain [of 36 66 "[]"] by (simp add: is_space_def)
  have "split_step 150 2 ((replicate 140 65 @ replicate 4 66) @ replicate 36 66, 1, [])
      = Inl (lstrip (replicate 36 66), 1 + 1, [] @ [part_prefix 1 2 @ (replicate 140 65 @ replicate 4 66)])"
  proof (rule split_step_no_space)
    show "\<forall>c \<in> set (replicate 140 65 @ replicate 4 66). plain c" using pl by auto
    show "150 - int (utf8_len (part_prefix 1 2)) = int (length (replicate 140 (65::nat) @ replicate 4 66))"
      by (simp add: p1 l del: cps_simps)
  qed simp_all
  then have s1: "split_step 150 2 (?txt, 1, [])
      = Inl (replicate 36 66, 2, [cps ''[1/2] '' @ replicate 140 65 @ replicate 4 66])"
    unfolding e r p1 by simp
  have s2: "split_step 150 2 (replicate 36 66, 2, [cps ''[1/2] '' @ replicate 140 65 @ replicate 4 66])
      = Inr ([cps ''[1/2] '' @ replicate 140 65 @ replicate 4 66] @ [part_prefix 2 2 @ replicate 36 66])"
    by (rule split_step_last) (simp_all add: p2 l char_bytes_def del: cps_simps)
  have loop: "split_loop 150 2 (?txt, 1, [])
      = Some [cps ''[1/2] '' @ replicate 140 65 @ replicate 4 66, cps ''[2/2] '' @ replicate 36 66]"
    by (subst split_loop.simps, simp only: s1 sum.case)
       (subst split_loop.simps, simp only: s2 sum.case p2 append_Cons append_Nil)
  have enc: "encodable ?txt" by (simp add: is_surrogate_def)
  have u: "utf8_len ?txt = 180" by (simp add: char_bytes_def)
  have est: "estimated_parts ?txt 150 = 2" unfolding estimated_parts_def u by simp
  have "split_message ?txt (Some 150)
     = Some (Inr [cps ''[1/2] '' @ replicate 140 65 @ replicate 4 66,
                  cps ''[2/2] '' @ replicate 36 66])"
    unfolding split_message_def Let_def option.case est loop using enc u by simp
  moreover have "utf8_len (cps ''[1/2] '' @ replicate 140 65 @ replicate 4 66) = 150"
    "utf8_len (cps ''[2/2] '' @ replicate 36 66) = 42"
    by (simp_all add: l char_bytes_def del: cps_simps)
  ultimately show ?thesis by (intro conjI)
qed

section \<open>Properties of the send-result classification\<close>

text \<open>
  C5. \<open>_handle_send_result\<close> classifies a send result in this order: a missing result and
  an event of type \<open>ERROR\<close> are failures; an event of type \<open>MSG_SENT\<close> or \<open>OK\<close> is a
  success; an event of any other type is a success when the operation is a channel message
  and the payload's reason is \<open>no_event_received\<close>, and a failure otherwise. Whatever the
  result (also one without a type, which the code takes for a success), both rate limiters
  are recorded once when the call returns success and not at all when it returns failure.
\<close>

theorem handle_send_result_classifies:
  "handle_send_result NoResult op st = (False, logged LogError st)
   \<and> handle_send_result (Event ERROR p) op st = (False, logged LogError st)
   \<and> (t = MSG_SENT \<or> t = OK \<longrightarrow>
        handle_send_result (Event t p) op st = (True, record_both (logged LogInfo st)))
   \<and> (reason_no_event p \<longrightarrow>
        handle_send_result (Event (OtherType n) p) ''Channel message'' st
          = (True, record_both (logged LogWarning st)))
   \<and> (\<not> (op = ''Channel message'' \<and> reason_no_event p) \<longrightarrow>
        handle_send_result (Event (OtherType n) p) op st = (False, logged LogWarning st))
   \<and> (\<forall>r. user_sends (snd (handle_send_result r op st))
              = user_sends st + (if fst (handle_send_result r op st) then 1 else 0)
          \<and> tx_records (snd (handle_send_result r op st))
              = tx_records st + (if fst (handle_send_result r op st) then 1 else 0))"
  by (auto simp: handle_send_result_def record_both_def logged_def split: send_result.splits)

theorem handle_send_result_classifies_witness:
  "handle_send_result (Event OK NoPayloadAttr) ''DM'' \<lparr>user_sends = 0, tx_records = 0, log = []\<rparr>
     = (True, \<lparr>user_sends = 1, tx_records = 1, log = [LogInfo]\<rparr>)
   \<and> reason_no_event (Dict [''reason'' \<mapsto> PyStr ''no_event_received''])
   \<and> handle_send_result (Event (OtherType ''NO_MORE_MSGS'') (Dict [''reason'' \<mapsto> PyStr ''no_event_received'']))
        ''Channel message'' \<lparr>user_sends = 0, tx_records = 0, log = []\<rparr>
     = (True, \<lparr>user_sends = 1, tx_records = 1, log = [LogWarning]\<rparr>)
   \<and> handle_send_result (Event (OtherType ''NO_MORE_MSGS'') (Dict [''reason'' \<mapsto> PyStr ''no_event_received'']))
        ''DM'' \<lparr>user_sends = 0, tx_records = 0, log = []\<rparr>
     = (False, \<lparr>user_sends = 0, tx_records = 0, log = [LogWarning]\<rparr>)"
  using handle_send_result_classifies [where t = OK and p = NoPayloadAttr and op = "''DM''"
      and st = "\<lparr>user_sends = 0, tx_records = 0, log = []\<rparr>"]
    handle_send_result_classifies [where p = "Dict [''reason'' \<mapsto> PyStr ''no_event_received'']"
      and op = "''Channel message''" and n = "''NO_MORE_MSGS''"
      and st = "\<lparr>user_sends = 0, tx_records = 0, log = []\<rparr>"]
    handle_send_result_classifies [where p = "Dict [''reason'' \<mapsto> PyStr ''no_event_received'']"
      and op = "''DM''" and n = "''NO_MORE_MSGS''"
      and st = "\<lparr>user_sends = 0, tx_records = 0, log = []\<rparr>"]
  by (simp add: reason_no_event_def record_both_def logged_def)

section \<open>Properties of the delivery loop\<close>


lemma send_parts_three:
  assumes "send w p1 = (True, w1)" and "send (pause w1) p2 = (False, w2)"
  shows "send_parts send pause [p1, p2, p3] w = (False, [(p1, True), (p2, False)], w2)"
  using assms by simp



section \<open>Properties of the connectivity cache\<close>

text \<open>
  C9. A call of the asynchronous cached check either probes once, returns the probe's
  value and stores it with the time read at the start of the call, or it probes nothing
  and returns the cached value, whose timestamp is then less than 30 seconds before the
  time read by \<open>is_valid\<close>. Hence, after a call that probed, two further calls whose
  validity checks read times less than 30 seconds after the stored timestamp probe nothing
  (one probe in all, and they return the first call's value); and a next call whose
  validity check reads a time 30 seconds or more after the stored timestamp probes exactly
  once more.
\<close>

theorem connectivity_cache_fresh:
  fixes env :: outside and st :: net_state
  defines "k \<equiv> clock_reads st"
  defines "r1 \<equiv> check_internet_cached_async env st"
  defines "r2 \<equiv> check_internet_cached_async env (snd r1)"
  defines "r3 \<equiv> check_internet_cached_async env (snd r2)"
  shows "((probes (snd r1) = probes st + 1 \<and> fst r1 = probe env (probes st)
            \<and> has_internet (snd r1) = fst r1 \<and> timestamp (snd r1) = clock env k)
          \<or> (probes (snd r1) = probes st \<and> fst r1 = has_internet st
            \<and> has_internet (snd r1) = has_internet st \<and> timestamp (snd r1) = timestamp st
            \<and> clock env (k + 1) - timestamp st < 30))
       \<and> (\<not> clock env (k + 1) - timestamp st < 30 \<longrightarrow>
            clock env (k + 3) - clock env k < 30 \<longrightarrow> clock env (k + 5) - clock env k < 30 \<longrightarrow>
            probes (snd r3) = probes st + 1 \<and> fst r2 = fst r1 \<and> fst r3 = fst r1)
       \<and> (\<not> clock env (k + 1) - timestamp st < 30 \<longrightarrow>
            \<not> clock env (k + 3) - clock env k < 30 \<longrightarrow>
            probes (snd r2) = probes st + 2 \<and> fst r2 = probe env (probes st + 1)
            \<and> timestamp (snd r2) = clock env (k + 2))"
  unfolding r3_def r2_def r1_def k_def
  by (simp add: check_internet_cached_async_def is_valid_def internet_cache_duration_def Let_def
      numeral_3_eq_3 eval_nat_numeral)

theorem connectivity_cache_fresh_witness:
  "fst (check_internet_cached_async \<lparr>clock = (\<lambda>k. 1000 + real k), probe = (\<lambda>k. k = 0)\<rparr>
          \<lparr>has_internet = True, timestamp = 0, clock_reads = 0, probes = 0\<rparr>) = True
   \<and> probes (snd (check_internet_cached_async \<lparr>clock = (\<lambda>k. 1000 + real k), probe = (\<lambda>k. k = 0)\<rparr>
        (snd (check_internet_cached_async \<lparr>clock = (\<lambda>k. 1000 + real k), probe = (\<lambda>k. k = 0)\<rparr>
          (snd (check_internet_cached_async \<lparr>clock = (\<lambda>k. 1000 + real k), probe = (\<lambda>k. k = 0)\<rparr>
            \<lparr>has_internet = True, timestamp = 0, clock_reads = 0, probes = 0\<rparr>)))))) = 1
   \<and> probes (snd (check_internet_cached_async \<lparr>clock = (\<lambda>k. 1000 + 20 * real k), probe = (\<lambda>k. k = 0)\<rparr>
          (snd (check_internet_cached_async \<lparr>clock = (\<lambda>k. 1000 + 20 * real k), probe = (\<lambda>k. k = 0)\<rparr>
            \<lparr>has_internet = True, timestamp = 0, clock_reads = 0, probes = 0\<rparr>)))) = 2"
  using connectivity_cache_fresh [of "\<lparr>clock = (\<lambda>k. 1000 + real k), probe = (\<lambda>k. k = 0)\<rparr>"
      "\<lparr>has_internet = True, timestamp = 0, clock_reads = 0, probes = 0\<rparr>"]
    connectivity_cache_fresh [of "\<lparr>clock = (\<lambda>k. 1000 + 20 * real k), probe = (\<lambda>k. k = 0)\<rparr>"
      "\<lparr>has_internet = True, timestamp = 0, clock_reads = 0, probes = 0\<rparr>"]
  by simp

section \<open>Properties of the matching engine\<close>

lemma owned_by_command_iff:
  "owned_by_command str_lower cmds keyword = contained_ignoring_case str_lower cmds keyword"
proof
  assume "owned_by_command str_lower cmds keyword"
  then obtain n cmd where m: "(n, cmd) \<in> set cmds"
    and "str_lower keyword \<in> set (map str_lower (cmd_keywords cmd))"
    unfolding owned_by_command_def list_ex_iff by auto
  then obtain k where k: "k \<in> set (cmd_keywords cmd)" "str_lower k = str_lower keyword"
    by auto
  from k have "\<exists>k \<in> set (cmd_keywords (snd (n, cmd))). str_lower k = str_lower keyword"
    by auto
  with m show "contained_ignoring_case str_lower cmds keyword"
    unfolding contained_ignoring_case_def by (rule bexI [rotated])
next
  assume "contained_ignoring_case str_lower cmds keyword"
  then obtain entry k where m: "entry \<in> set cmds"
    and k: "k \<in> set (cmd_keywords (snd entry))" "str_lower k = str_lower keyword"
    unfolding contained_ignoring_case_def by auto
  from k have "str_lower keyword \<in> set (map str_lower (cmd_keywords (snd entry)))"
    by (auto simp: image_iff intro: bexI [of _ k])
  then have "(case entry of (n, cmd) \<Rightarrow>
      str_lower keyword \<in> set (map str_lower (cmd_keywords cmd)))"
    by (cases entry) simp
  with m show "owned_by_command str_lower cmds keyword"
    unfolding owned_by_command_def list_ex_iff by (rule bexI [rotated])
qed

lemma keyword_sweep_not_owned:
  "owned_by_command str_lower cmds keyword \<Longrightarrow>
     keyword \<notin> fst ` set (keyword_sweep str_lower h cmds msg cl kws)"
proof (induction kws)
  case Nil
  then show ?case by simp
next
  case (Cons a kws)
  obtain k r where a: "a = (k, r)" by (cases a)
  show ?case
  proof (cases "owned_by_command str_lower cmds k")
    case True
    with Cons a show ?thesis by simp
  next
    case False
    with Cons.prems have "k \<noteq> keyword" by auto
    with Cons a False show ?thesis by (auto simp: Let_def split: if_splits)
  qed
qed

lemma command_sweep_names:
  "command_sweep env msg cmds st = (ms, st') \<Longrightarrow>
     length (filter (\<lambda>m. fst m = nm) ms) \<le> length (filter (\<lambda>e. fst e = nm) cmds)"
proof (induction cmds arbitrary: st ms st')
  case Nil
  then show ?case by simp
next
  case (Cons a cmds)
  obtain n c where a: "a = (n, c)" by (cases a)
  show ?case
  proof (cases "should_execute c msg \<and> can_execute c msg")
    case False
    with Cons.prems a have "command_sweep env msg cmds st = (ms, st')" by (auto split: if_splits)
    from Cons.IH [OF this] show ?thesis by (simp add: le_SucI)
  next
    case True
    obtain has_net st1 where n: "(if requires_internet c then check_internet_cached env st else (True, st)) = (has_net, st1)"
      by (cases "(if requires_internet c then check_internet_cached env st else (True, st))")
    show ?thesis
    proof (cases has_net)
      case False
      with Cons.prems a True n have "command_sweep env msg cmds st1 = (ms, st')" by simp
      from Cons.IH [OF this] show ?thesis by (simp add: le_SucI)
    next
      case hn: True
      obtain ms2 st2 where r: "command_sweep env msg cmds st1 = (ms2, st2)"
        by (cases "command_sweep env msg cmds st1")
      from Cons.prems a True n hn r obtain e where ms: "ms = e # ms2" and e: "fst e = n"
        by (auto split: if_splits)
      from Cons.IH [OF r] show ?thesis by (simp add: ms e a)
    qed
  qed
qed

lemma distinct_filter_fst_le1:
  "distinct (map fst xs) \<Longrightarrow> length (filter (\<lambda>e. fst e = k) xs) \<le> 1"
proof (induction xs)
  case Nil
  then show ?case by simp
next
  case (Cons a xs)
  show ?case
  proof (cases "fst a = k")
    case True
    with Cons.prems have "k \<notin> fst ` set xs" by auto
    then have "filter (\<lambda>e. fst e = k) xs = []" by (auto simp: filter_empty_conv)
    with True show ?thesis by simp
  next
    case False
    with Cons show ?thesis by simp
  qed
qed

lemma help_sweep_single:
  "help_sweep h kws msg cl hks = Some (Inr ms) \<Longrightarrow> length ms = 1"
  by (induction hks) (auto simp: Let_def split: if_splits option.splits)

text \<open>
  C8. Whatever \<open>str.lower\<close> does: a statically configured keyword that some registered
  command's keyword set contains, compared without regard to case, is never a trigger among
  the matches of the residual keyword sweep, for any message. Hence, the commands' names
  being the keys of a dictionary, the list that \<open>check_keywords\<close> returns holds at most
  one match whose trigger is that keyword: the command's own, never a second one from the
  keyword table.
\<close>

theorem owned_keyword_never_residual:
  "(contained_ignoring_case str_lower cmds keyword \<longrightarrow>
      keyword \<notin> fst ` set (keyword_sweep str_lower h cmds msg (content_lower str_lower msg) kws))
   \<and> (contained_ignoring_case str_lower cmds keyword \<longrightarrow> distinct (map fst cmds) \<longrightarrow>
        check_keywords str_lower env h cmds kws msg st = (Inr ms, st') \<longrightarrow>
        length (filter (\<lambda>m. fst m = keyword) ms) \<le> 1)"
proof (intro conjI impI)
  assume "contained_ignoring_case str_lower cmds keyword"
  then have o: "owned_by_command str_lower cmds keyword" by (simp add: owned_by_command_iff)
  show n: "keyword \<notin> fst ` set (keyword_sweep str_lower h cmds msg (content_lower str_lower msg) kws)"
    by (rule keyword_sweep_not_owned [OF o])
  assume d: "distinct (map fst cmds)"
    and c: "check_keywords str_lower env h cmds kws msg st = (Inr ms, st')"
  show "length (filter (\<lambda>m. fst m = keyword) ms) \<le> 1"
  proof (cases "help_sweep h kws msg (content_lower str_lower msg) (help_keywords str_lower cmds)")
    case (Some r)
    with c have "help_sweep h kws msg (content_lower str_lower msg) (help_keywords str_lower cmds)
        = Some (Inr ms)"
      by (simp add: check_keywords_def Let_def)
    from help_sweep_single [OF this] have "length ms = 1" .
    moreover have "length (filter (\<lambda>m. fst m = keyword) ms) \<le> length ms" by (rule length_filter_le)
    ultimately show ?thesis by simp
  next
    case None
    obtain cm st2 where s: "command_sweep env msg cmds st = (cm, st2)"
      by (cases "command_sweep env msg cmds st")
    from c None s
    have ms: "ms = cm @ keyword_sweep str_lower h cmds msg (content_lower str_lower msg) kws"
      by (simp add: check_keywords_def Let_def)
    from n have "filter (\<lambda>m. fst m = keyword)
        (keyword_sweep str_lower h cmds msg (content_lower str_lower msg) kws) = []"
      by (auto simp: filter_empty_conv)
    moreover have "length (filter (\<lambda>m. fst m = keyword) cm) \<le> 1"
      using command_sweep_names [OF s, of keyword] distinct_filter_fst_le1 [OF d, of keyword]
      by linarith
    ultimately show ?thesis by (simp add: ms)
  qed
qed

lemma example_content_lower: "content_lower lower_on_ascii example_message = cps ''ping now''"
  by (simp add: content_lower_def example_message_def strip_def lstrip_def rstrip_def
      is_space_def startswith_def cps_def lower_on_ascii_def Let_def)

lemma example_should:
  "should_execute (example_command (cps ''ping'') f) example_message"
  "\<not> should_execute (example_command (cps ''wx'') f) example_message"
  by (simp_all add: example_command_def example_content_lower) (simp_all add: startswith_def cps_def)

text \<open>
  The command named \<open>ping\<close> owns the keyword \<open>PING\<close>; the keyword table holds \<open>ping\<close> and
  \<open>hello\<close>; the message is \<open>!Ping now\<close>. The only match is the command's.
\<close>

theorem owned_keyword_never_residual_witness:
  "contained_ignoring_case lower_on_ascii
        [(cps ''ping'', (example_command (cps ''ping'') (Some (cps ''Pong!'')))
                          \<lparr>cmd_keywords := [cps ''PING'']\<rparr>)] (cps ''ping'')
   \<and> distinct (map fst [(cps ''ping'', (example_command (cps ''ping'') (Some (cps ''Pong!'')))
                          \<lparr>cmd_keywords := [cps ''PING'']\<rparr>)])
   \<and> check_keywords lower_on_ascii example_outside example_helpers
        [(cps ''ping'', (example_command (cps ''ping'') (Some (cps ''Pong!'')))
                          \<lparr>cmd_keywords := [cps ''PING'']\<rparr>)]
        [(cps ''ping'', cps ''static pong''), (cps ''hello'', cps ''Hi!'')] example_message example_net
      = (Inr [(cps ''ping'', Some (cps ''Pong!''))], example_net)
   \<and> cps ''ping'' \<notin> fst ` set (keyword_sweep lower_on_ascii example_helpers
        [(cps ''ping'', (example_command (cps ''ping'') (Some (cps ''Pong!'')))
                          \<lparr>cmd_keywords := [cps ''PING'']\<rparr>)] example_message
        (content_lower lower_on_ascii example_message)
        [(cps ''ping'', cps ''static pong''), (cps ''hello'', cps ''Hi!'')])
   \<and> length (filter (\<lambda>m. fst m = cps ''ping'') [(cps ''ping'', Some (cps ''Pong!''))]) \<le> 1"
proof -
  let ?cmd = "(example_command (cps ''ping'') (Some (cps ''Pong!'')))\<lparr>cmd_keywords := [cps ''PING'']\<rparr>"
  let ?cmds = "[(cps ''ping'', ?cmd)]"
  let ?kws = "[(cps ''ping'', cps ''static pong''), (cps ''hello'', cps ''Hi!'')]"
  have lo: "lower_on_ascii (cps ''PING'') = cps ''ping''" "lower_on_ascii (cps ''ping'') = cps ''ping''"
    "lower_on_ascii (cps ''hello'') = cps ''hello''"
    by (simp_all add: lower_on_ascii_def cps_def)
  have i: "contained_ignoring_case lower_on_ascii ?cmds (cps ''ping'')"
    by (simp add: contained_ignoring_case_def lo)
  then have o: "owned_by_command lower_on_ascii ?cmds (cps ''ping'')"
    by (simp add: owned_by_command_iff)
  have "\<not> contained_ignoring_case lower_on_ascii ?cmds (cps ''hello'')"
    by (simp add: contained_ignoring_case_def lo) (simp add: cps_def)
  then have o2: "\<not> owned_by_command lower_on_ascii ?cmds (cps ''hello'')"
    by (simp add: owned_by_command_iff)
  have d: "distinct (map fst ?cmds)" by simp
  have hk: "help_keywords lower_on_ascii ?cmds = [cps ''help'']"
    by (simp add: help_keywords_def) (simp add: cps_def)
  have hs: "help_sweep example_helpers ?kws example_message (cps ''ping now'') [cps ''help''] = None"
    by (simp add: startswith_def) (simp add: cps_def)
  have ks: "keyword_sweep lower_on_ascii example_helpers ?cmds example_message (cps ''ping now'') ?kws = []"
    by (simp add: o o2 Let_def lo) (simp add: cps_def startswith_def)
  have cs: "command_sweep example_outside example_message ?cmds example_net
      = ([(cps ''ping'', Some (cps ''Pong!''))], example_net)"
    by (simp add: example_should) (simp add: example_command_def truthy_def cps_def)
  have c: "check_keywords lower_on_ascii example_outside example_helpers ?cmds ?kws example_message
      example_net = (Inr [(cps ''ping'', Some (cps ''Pong!''))], example_net)"
    unfolding check_keywords_def Let_def example_content_lower hk hs cs ks by simp
  from owned_keyword_never_residual [of lower_on_ascii ?cmds "cps ''ping''" example_helpers
      example_message ?kws example_outside example_net "[(cps ''ping'', Some (cps ''Pong!''))]"
      example_net] i d c
  show ?thesis by simp
qed

section \<open>Properties of the orchestrator\<close>

lemma run_command_executed:
  "fst (run_command env wv hs n c msg st) = [] \<or> fst (run_command env wv hs n c msg st) = [n]"
  by (auto simp: run_command_def run_execute_def Let_def split: prod.splits exec_outcome.splits)

lemma run_command_length:
  "length (fst (run_command env wv hs n c msg st)) \<le> 1"
  using run_command_executed [of env wv hs n c msg st] by auto

lemma run_command_names:
  "set (fst (run_command env wv hs n c msg st)) \<subseteq> {n}"
  using run_command_executed [of env wv hs n c msg st] by auto

lemma execute_loop_at_most_one:
  "length (fst (execute_loop env wv hs cmds msg st)) \<le> 1"
proof (induction cmds)
  case Nil
  then show ?case by simp
next
  case (Cons a cmds)
  obtain n c where a: "a = (n, c)" by (cases a)
  from Cons run_command_length [of env wv hs n c msg st] show ?case
    unfolding a by simp
qed

lemma execute_loop_first:
  "\<forall>(n', c') \<in> set pre. \<not> self_handling c' msg \<Longrightarrow> self_handling c msg \<Longrightarrow>
     execute_loop env wv hs (pre @ (n, c) # post) msg st = run_command env wv hs n c msg st"
  by (induction pre) (auto simp: self_handling_def)

lemma execute_loop_none:
  "\<forall>(n', c') \<in> set cmds. \<not> self_handling c' msg \<Longrightarrow>
     execute_loop env wv hs cmds msg st = ([], st)"
  by (induction cmds) (auto simp: self_handling_def)

text \<open>
  C4. \<open>execute_commands\<close> calls \<open>execute\<close> of at most one command. When a command is the
  first in the registry that matches the message and has no response format, the call is
  exactly the processing of that command (gate rejection, missing connection or execution):
  no later command is looked at and only that command can have been executed. When there
  is no such command nothing happens.
\<close>

theorem execute_commands_one_command:
  "length (fst (execute_commands env wv cmds msg st)) \<le> 1
   \<and> (cmds = pre @ (n, c) # post \<longrightarrow> (\<forall>(n', c') \<in> set pre. \<not> self_handling c' msg) \<longrightarrow>
        self_handling c msg \<longrightarrow>
        execute_commands env wv cmds msg st
          = run_command env wv (map_of cmds (cps ''stats'') \<noteq> None) n c msg st
        \<and> set (fst (execute_commands env wv cmds msg st)) \<subseteq> {n})
   \<and> ((\<forall>(n', c') \<in> set cmds. \<not> self_handling c' msg) \<longrightarrow>
        execute_commands env wv cmds msg st = ([], st))"
proof (intro conjI impI)
  show "length (fst (execute_commands env wv cmds msg st)) \<le> 1"
    unfolding execute_commands_def by (rule execute_loop_at_most_one)
next
  assume c: "cmds = pre @ (n, c) # post"
    and p: "\<forall>(n', c') \<in> set pre. \<not> self_handling c' msg"
    and s: "self_handling c msg"
  show e: "execute_commands env wv cmds msg st
          = run_command env wv (map_of cmds (cps ''stats'') \<noteq> None) n c msg st"
    unfolding execute_commands_def
    using execute_loop_first [OF p s, of env wv "map_of cmds (cps ''stats'') \<noteq> None" n post st]
    by (simp only: c)
  show "set (fst (execute_commands env wv cmds msg st)) \<subseteq> {n}"
    unfolding e by (rule run_command_names)
next
  assume "\<forall>(n', c') \<in> set cmds. \<not> self_handling c' msg"
  then show "execute_commands env wv cmds msg st = ([], st)"
    unfolding execute_commands_def by (rule execute_loop_none)
qed

theorem execute_commands_one_command_witness:
  "self_handling (example_command (cps ''ping'') None) example_message
   \<and> \<not> self_handling (example_command (cps ''ping'') (Some (cps ''Pong!''))) example_message
   \<and> fst (execute_commands example_outside False
        [(cps ''pong'', example_command (cps ''ping'') (Some (cps ''Pong!''))),
         (cps ''ping'', example_command (cps ''ping'') None),
         (cps ''p'', example_command (cps ''p'') None)] example_message example_dispatcher)
      = [cps ''ping'']
   \<and> events (snd (execute_commands example_outside False
        [(cps ''pong'', example_command (cps ''ping'') (Some (cps ''Pong!''))),
         (cps ''ping'', example_command (cps ''ping'') None),
         (cps ''p'', example_command (cps ''p'') None)] example_message example_dispatcher))
      = [Logged LogInfo, ResponseSent (cps ''done''), Settled]"
proof -
  let ?a = "example_command (cps ''ping'') (Some (cps ''Pong!''))"
  let ?b = "example_command (cps ''ping'') None"
  let ?c = "example_command (cps ''p'') None"
  let ?cmds = "[(cps ''pong'', ?a), (cps ''ping'', ?b), (cps ''p'', ?c)]"
  have s: "self_handling ?b example_message"
    by (simp add: self_handling_def example_should) (simp add: example_command_def)
  have n: "\<not> self_handling ?a example_message"
    by (simp add: self_handling_def example_command_def)
  have p: "\<forall>(n', c') \<in> set [(cps ''pong'', ?a)]. \<not> self_handling c' example_message"
    using n by simp
  have st: "map_of ?cmds (cps ''stats'') = None"
    by (simp add: cps_def)
  have r: "run_command example_outside False False (cps ''ping'') ?b example_message example_dispatcher
     = ([cps ''ping''], example_dispatcher\<lparr>last_response := Some (cps ''done''),
          events := [Logged LogInfo, ResponseSent (cps ''done''), Settled]\<rparr>)"
    by (simp add: run_command_def run_execute_def example_command_def Let_def emit_def
        send_response_def record_stats_def example_dispatcher_def truthy_def)
  from execute_commands_one_command [of example_outside False ?cmds example_message
      example_dispatcher "[(cps ''pong'', ?a)]" "cps ''ping''" ?b "[(cps ''p'', ?c)]"] p s
  have "execute_commands example_outside False ?cmds example_message example_dispatcher
     = run_command example_outside False (map_of ?cmds (cps ''stats'') \<noteq> None) (cps ''ping'') ?b
         example_message example_dispatcher"
    by simp
  with s n st r show ?thesis by simp
qed

end
